theory Spec2Isabelle
  imports Main "HOL-Library.Word" "HOL-Library.Monad_Syntax"
begin

unbundle bit_operations_syntax

section \<open>The hardware boundary\<close>

text \<open>
  Both drivers act only through calls into the vendor HAL and the CMSIS intrinsics. Each
  such call is recorded, in program order, as one event of a log carried by the driver's
  state. The HAL calls are primitives that return: their status result is discarded by
  every caller in the source, so it is not part of the model.

  \<^item> \<open>I2C_Tx h a b\<close>: \<open>HAL_I2C_Master_Transmit(h, a, &b, 1, HAL_MAX_DELAY)\<close>;
  \<^item> \<open>Delay_ms n\<close>: \<open>HAL_Delay(n)\<close>;
  \<^item> \<open>GPIO_Write v\<close>: \<open>HAL_GPIO_WritePin(WS2812B_PORT, WS2812B_PIN, v)\<close>, \<open>True\<close> for
    \<open>GPIO_PIN_SET\<close>;
  \<^item> \<open>Nop_loop ns n\<close>: one call \<open>ws2812b_delay(ns)\<close>, whose loop ran \<open>__NOP()\<close> \<open>n\<close> times;
  \<^item> \<open>Irq_disable\<close>, \<open>Irq_enable\<close>: \<open>__disable_irq()\<close>, \<open>__enable_irq()\<close>.
\<close>

datatype hal_event =
    I2C_Tx nat "16 word" "8 word"
  | Delay_ms nat
  | GPIO_Write bool
  | Nop_loop "32 word" nat
  | Irq_disable
  | Irq_enable

record hal =
  hal_log :: "hal_event list"

definition HAL_Delay :: "nat \<Rightarrow> 'a hal_scheme \<Rightarrow> 'a hal_scheme" where
  "HAL_Delay ms st = st\<lparr>hal_log := hal_log st @ [Delay_ms ms]\<rparr>"

text \<open>
  A \<open>char *\<close> argument is the memory it points into: \<open>p k\<close> is the byte \<open>p[k]\<close>, and
  \<open>p++\<close> is \<open>\<lambda>k. p (Suc k)\<close>. Nothing says where a string ends but its bytes.
\<close>

type_synonym mem = "nat \<Rightarrow> 8 word"

section \<open>HD44780 over PCF8574: i2c.h and i2c.c\<close>

subsection \<open>Compile-time configuration\<close>

text \<open>
  \<open>LCD_ROWS\<close> and \<open>LCD_COLS\<close> are macros of i2c.h ("change if you have 20x4 etc"); the
  functions that read them take the geometry as a parameter, and \<open>i2c_h\<close> is the geometry
  the header declares.
\<close>

record lcd_geom =
  LCD_ROWS :: nat
  LCD_COLS :: nat

definition i2c_h :: lcd_geom where
  "i2c_h = \<lparr>LCD_ROWS = 2, LCD_COLS = 16\<rparr>"

definition lcd_20x4 :: lcd_geom where
  "lcd_20x4 = \<lparr>LCD_ROWS = 4, LCD_COLS = 20\<rparr>"

definition P_CF_RS :: "8 word" where "P_CF_RS = push_bit 0 1"
definition P_CF_RW :: "8 word" where "P_CF_RW = push_bit 1 1"
definition P_CF_EN :: "8 word" where "P_CF_EN = push_bit 2 1"
definition P_CF_BL :: "8 word" where "P_CF_BL = push_bit 3 1"

definition PCF_NIBBLE_SHIFT :: nat where "PCF_NIBBLE_SHIFT = 4"

subsection \<open>Local state\<close>

text \<open>
  The three file-scope variables of i2c.c, on top of the log of HAL calls. A pointer is the
  number of its address, \<open>NULL\<close> being 0.
\<close>

record lcd_state = hal +
  hi2c_lcd :: nat
  lcd_addr :: "8 word"
  backlight :: "8 word"

text \<open>The static initialisers: the state before any call.\<close>

definition lcd_reset :: lcd_state where
  "lcd_reset = \<lparr>hal_log = [], hi2c_lcd = 0, lcd_addr = 0x27, backlight = P_CF_BL\<rparr>"

subsection \<open>Low level\<close>

text \<open>\<open>lcd_addr << 1\<close> is computed in \<open>int\<close> and converted to \<open>uint16_t\<close>.\<close>

definition pcf_write :: "8 word \<Rightarrow> lcd_state \<Rightarrow> lcd_state" where
  "pcf_write data st =
     st\<lparr>hal_log := hal_log st @
       [I2C_Tx (hi2c_lcd st) (push_bit 1 (ucast (lcd_addr st))) data]\<rparr>"

definition lcd_pulse_enable :: "8 word \<Rightarrow> lcd_state \<Rightarrow> lcd_state" where
  "lcd_pulse_enable data st =
     (let st = pcf_write (data OR P_CF_EN) st;
          st = HAL_Delay 1 st;
          st = pcf_write (data AND NOT P_CF_EN) st;
          st = HAL_Delay 1 st
      in st)"

definition lcd_write_nibble :: "8 word \<Rightarrow> 8 word \<Rightarrow> lcd_state \<Rightarrow> lcd_state" where
  "lcd_write_nibble nibble ctrl st =
     (let out = push_bit PCF_NIBBLE_SHIFT (nibble AND 0x0F) AND 0xFF;
          out = out OR ((ctrl AND (P_CF_RS OR P_CF_RW)) OR backlight st);
          st = pcf_write out st;
          st = lcd_pulse_enable out st
      in st)"

definition lcd_send_cmd :: "8 word \<Rightarrow> lcd_state \<Rightarrow> lcd_state" where
  "lcd_send_cmd cmd st =
     (let ctrl = 0;
          st = lcd_write_nibble (drop_bit 4 cmd AND 0x0F) ctrl st;
          st = lcd_write_nibble (drop_bit 0 cmd AND 0x0F) ctrl st;
          st = HAL_Delay 2 st
      in st)"

definition lcd_send_data :: "8 word \<Rightarrow> lcd_state \<Rightarrow> lcd_state" where
  "lcd_send_data data st =
     (let ctrl = P_CF_RS;
          st = lcd_write_nibble (drop_bit 4 data AND 0x0F) ctrl st;
          st = lcd_write_nibble (drop_bit 0 data AND 0x0F) ctrl st;
          st = HAL_Delay 1 st
      in st)"

subsection \<open>Public operations\<close>

definition lcd_init :: "lcd_geom \<Rightarrow> nat \<Rightarrow> 8 word \<Rightarrow> lcd_state \<Rightarrow> lcd_state" where
  "lcd_init g hi2c addr7bit st =
     (let st = st\<lparr>hi2c_lcd := hi2c, lcd_addr := addr7bit AND 0x7F, backlight := P_CF_BL\<rparr>;
          st = HAL_Delay 50 st;
          st = lcd_write_nibble 0x03 0 st; st = HAL_Delay 5 st;
          st = lcd_write_nibble 0x03 0 st; st = HAL_Delay 5 st;
          st = lcd_write_nibble 0x03 0 st; st = HAL_Delay 2 st;
          st = lcd_write_nibble 0x02 0 st; st = HAL_Delay 2 st;
          func = (0x20 :: 8 word);
          func = (if LCD_ROWS g > 1 then func OR 0x08 else func);
          st = lcd_send_cmd (func OR 0x00) st;
          st = lcd_send_cmd 0x0C st;
          st = lcd_send_cmd 0x01 st; st = HAL_Delay 2 st;
          st = lcd_send_cmd 0x06 st
      in st)"

definition lcd_clear :: "lcd_state \<Rightarrow> lcd_state" where
  "lcd_clear st = (let st = lcd_send_cmd 0x01 st; st = HAL_Delay 2 st in st)"

text \<open>
  \<open>row\<close> and \<open>col\<close> are \<open>uint8_t\<close>; the comparisons with the macros are on \<open>int\<close>, and
  \<open>LCD_ROWS - 1\<close>, \<open>0x40 + col\<close> and \<open>addr += col\<close> are computed in \<open>int\<close> and stored
  back into a \<open>uint8_t\<close>, which is addition on \<open>8 word\<close>.
\<close>

definition lcd_put_cur :: "lcd_geom \<Rightarrow> 8 word \<Rightarrow> 8 word \<Rightarrow> lcd_state \<Rightarrow> lcd_state" where
  "lcd_put_cur g row col st =
     (let row = (if int (LCD_ROWS g) \<le> uint row then word_of_int (int (LCD_ROWS g) - 1) else row);
          col = (if int (LCD_COLS g) \<le> uint col then word_of_int (int (LCD_COLS g) - 1) else col);
          addr = (0x00 :: 8 word);
          addr =
            (if LCD_ROWS g = 2 \<and> LCD_COLS g = 16 then
               (if row = 0 then 0x00 else 0x40) + col
             else if LCD_ROWS g = 4 \<and> LCD_COLS g = 20 then
               (if row = 0 then 0x00 + col
                else if row = 1 then 0x40 + col
                else if row = 2 then 0x14 + col
                else if row = 3 then 0x54 + col
                else 0x00 + col)
             else
               (if row = 0 then 0x00 else 0x40) + col)
      in lcd_send_cmd (0x80 OR addr) st)"

definition lcd_backlight_on :: "lcd_state \<Rightarrow> lcd_state" where
  "lcd_backlight_on st = (let st = st\<lparr>backlight := P_CF_BL\<rparr> in pcf_write (backlight st) st)"

definition lcd_backlight_off :: "lcd_state \<Rightarrow> lcd_state" where
  "lcd_backlight_off st = (let st = st\<lparr>backlight := 0\<rparr> in pcf_write (backlight st) st)"

text \<open>
  \<open>while (*str) lcd_send_data((uint8_t)(*str++))\<close>. The loop ends at the first zero byte
  and not before: on memory without one it does not return, which is the value \<open>None\<close>.
\<close>

partial_function (option) lcd_send_string :: "mem \<Rightarrow> lcd_state \<Rightarrow> lcd_state option" where
  "lcd_send_string str st =
     (if str 0 = 0 then Some st
      else lcd_send_string (\<lambda>k. str (Suc k)) (lcd_send_data (str 0) st))"

subsection \<open>Utility helpers\<close>

text \<open>
  The helpers fill a local \<open>char\<close> array and hand it to \<open>lcd_send_string\<close>. The array is
  not initialised in the source: its contents at entry are the parameter \<open>buf\<close> (or
  \<open>tmp\<close>). Loop counters are \<open>int\<close> in the source and never negative; they are \<open>nat\<close>
  here, without the 32-bit bound, and \<open>(uint8_t) r\<close> is \<open>word_of_nat r\<close>.
\<close>

function ascii_fill :: "nat \<Rightarrow> nat \<Rightarrow> nat \<Rightarrow> mem \<Rightarrow> mem" where
  "ascii_fill base len i buf =
     (if i < len then ascii_fill base len (Suc i) (buf(i := word_of_nat (base + i))) else buf)"
  by pat_completeness auto
termination
  by (relation "measure (\<lambda>(base, len, i, buf). len - i)") auto

function ascii_rows :: "lcd_geom \<Rightarrow> nat \<Rightarrow> mem \<Rightarrow> lcd_state \<Rightarrow> lcd_state option" where
  "ascii_rows g r buf st =
     (if r < LCD_ROWS g then
        (let base = 32 + r * LCD_COLS g;
             len = LCD_COLS g;
             len = (if len > 32 - 1 then 32 - 1 else len);
             buf = ascii_fill base len 0 buf;
             buf = buf(len := 0);
             st = lcd_put_cur g (word_of_nat r) 0 st
         in do { st \<leftarrow> lcd_send_string buf st; ascii_rows g (Suc r) buf st })
      else Some st)"
  by pat_completeness auto
termination
  by (relation "measure (\<lambda>(g, r, buf, st). LCD_ROWS g - r)") auto

definition lcd_ascii_test :: "lcd_geom \<Rightarrow> mem \<Rightarrow> lcd_state \<Rightarrow> lcd_state option" where
  "lcd_ascii_test g buf st = ascii_rows g 0 buf st"

text \<open>
  The inner loop of \<open>lcd_show_wrapped\<close>: it returns the final \<open>i\<close> with the array.
\<close>

function wrapped_copy :: "lcd_geom \<Rightarrow> mem \<Rightarrow> nat \<Rightarrow> nat \<Rightarrow> mem \<Rightarrow> nat \<times> mem" where
  "wrapped_copy g s offset i tmp =
     (if i < LCD_COLS g \<and> s (offset + i) \<noteq> 0
      then wrapped_copy g s offset (Suc i) (tmp(i := s (offset + i)))
      else (i, tmp))"
  by pat_completeness auto
termination
  by (relation "measure (\<lambda>(g, s, offset, i, tmp). LCD_COLS g - i)") auto

function wrapped_rows :: "lcd_geom \<Rightarrow> mem \<Rightarrow> nat \<Rightarrow> mem \<Rightarrow> lcd_state \<Rightarrow> lcd_state option" where
  "wrapped_rows g s r tmp st =
     (if r < LCD_ROWS g then
        (let offset = r * LCD_COLS g;
             (i, tmp) = wrapped_copy g s offset 0 tmp;
             tmp = tmp(i := 0);
             st = lcd_put_cur g (word_of_nat r) 0 st
         in do { st \<leftarrow> lcd_send_string tmp st;
                 if s (offset + i) = 0 then Some st else wrapped_rows g s (Suc r) tmp st })
      else Some st)"
  by pat_completeness auto
termination
  by (relation "measure (\<lambda>(g, s, r, tmp, st). LCD_ROWS g - r)") auto

definition lcd_show_wrapped :: "lcd_geom \<Rightarrow> mem \<Rightarrow> mem \<Rightarrow> lcd_state \<Rightarrow> lcd_state option" where
  "lcd_show_wrapped g s tmp st = wrapped_rows g s 0 tmp st"

text \<open>\<open>strlen\<close> of the C library: the index of the first zero byte, if there is one.\<close>

partial_function (option) strlen_from :: "mem \<Rightarrow> nat \<Rightarrow> nat option" where
  "strlen_from s n = (if s n = 0 then Some n else strlen_from s (Suc n))"

definition strlen :: "mem \<Rightarrow> nat option" where
  "strlen s = strlen_from s 0"

function scroll_copy :: "lcd_geom \<Rightarrow> mem \<Rightarrow> nat \<Rightarrow> nat \<Rightarrow> mem \<Rightarrow> mem" where
  "scroll_copy g text start i buf =
     (if i < LCD_COLS g then scroll_copy g text start (Suc i) (buf(i := text (start + i)))
      else buf)"
  by pat_completeness auto
termination
  by (relation "measure (\<lambda>(g, text, start, i, buf). LCD_COLS g - i)") auto

function scroll_steps ::
  "lcd_geom \<Rightarrow> 8 word \<Rightarrow> mem \<Rightarrow> 16 word \<Rightarrow> nat \<Rightarrow> nat \<Rightarrow> mem \<Rightarrow> lcd_state \<Rightarrow> lcd_state option"
where
  "scroll_steps g row text delay_ms len start buf st =
     (if int start \<le> int len - int (LCD_COLS g) then
        (let buf = scroll_copy g text start 0 buf;
             buf = buf(LCD_COLS g := 0);
             st = lcd_put_cur g row 0 st
         in do { st \<leftarrow> lcd_send_string buf st;
                 scroll_steps g row text delay_ms len (Suc start) buf
                   (HAL_Delay (unat delay_ms) st) })
      else Some st)"
  by pat_completeness auto
termination
  by (relation "measure (\<lambda>(g, row, text, delay_ms, len, start, buf, st).
        Suc (len - LCD_COLS g) - start)") auto

definition lcd_scroll_line ::
  "lcd_geom \<Rightarrow> 8 word \<Rightarrow> mem \<Rightarrow> 16 word \<Rightarrow> mem \<Rightarrow> lcd_state \<Rightarrow> lcd_state option"
where
  "lcd_scroll_line g row text delay_ms buf st =
     do { len \<leftarrow> strlen text;
          if len \<le> LCD_COLS g then lcd_send_string text (lcd_put_cur g row 0 st)
          else scroll_steps g row text delay_ms len 0 buf st }"


section \<open>WS2812B bit-banger: ws2812b.c\<close>

text \<open>
  \<open>SystemCoreClock\<close> is the CMSIS global the delay loop reads; \<open>primask\<close> is the PRIMASK
  bit, set when interrupts are masked.
\<close>

record ws_state = hal +
  SystemCoreClock :: "32 word"
  primask :: bool

definition T0H :: "32 word" where "T0H = 350"
definition T1H :: "32 word" where "T1H = 700"
definition T0L :: "32 word" where "T0L = 800"
definition T1L :: "32 word" where "T1L = 600"

text \<open>
  \<open>(n) * SystemCoreClock / 1000000000UL\<close>: all three operands are 32-bit unsigned on
  this target, so the product wraps.
\<close>

definition NS_TO_CYCLES :: "32 word \<Rightarrow> 32 word \<Rightarrow> 32 word" where
  "NS_TO_CYCLES clk n = n * clk div 1000000000"

text \<open>\<open>while (cycles--) __NOP();\<close>, counting the \<open>__NOP()\<close>s executed.\<close>

function nop_loop :: "32 word \<Rightarrow> nat \<Rightarrow> nat" where
  "nop_loop cycles n = (if cycles \<noteq> 0 then nop_loop (cycles - 1) (Suc n) else n)"
  by pat_completeness auto
termination
  by (relation "measure (\<lambda>(cycles, n). unat cycles)") (auto simp: unat_minus_one unat_gt_0)

definition ws2812b_delay :: "32 word \<Rightarrow> ws_state \<Rightarrow> ws_state" where
  "ws2812b_delay ns st =
     (let cycles = NS_TO_CYCLES (SystemCoreClock st) ns div 2
      in st\<lparr>hal_log := hal_log st @ [Nop_loop ns (nop_loop cycles 0)]\<rparr>)"

definition HAL_GPIO_WritePin :: "bool \<Rightarrow> ws_state \<Rightarrow> ws_state" where
  "HAL_GPIO_WritePin v st = st\<lparr>hal_log := hal_log st @ [GPIO_Write v]\<rparr>"

definition disable_irq :: "ws_state \<Rightarrow> ws_state" where
  "disable_irq st = st\<lparr>primask := True, hal_log := hal_log st @ [Irq_disable]\<rparr>"

definition enable_irq :: "ws_state \<Rightarrow> ws_state" where
  "enable_irq st = st\<lparr>primask := False, hal_log := hal_log st @ [Irq_enable]\<rparr>"

text \<open>
  The inner loop, \<open>for (int8_t bit = 7; bit >= 0; bit--)\<close>: the counter of the model is
  \<open>bit + 1\<close>, so that it starts at 8 and the loop ends at 0 (\<open>bitn\<close> is the source's \<open>bit\<close>).
\<close>

fun ws2812b_bits :: "8 word \<Rightarrow> nat \<Rightarrow> ws_state \<Rightarrow> ws_state" where
  "ws2812b_bits cur_byte 0 st = st"
| "ws2812b_bits cur_byte (Suc bitn) st =
     ws2812b_bits cur_byte bitn
       (if cur_byte AND push_bit bitn 1 \<noteq> 0 then
          (let st = HAL_GPIO_WritePin True st;
               st = ws2812b_delay T1H st;
               st = HAL_GPIO_WritePin False st;
               st = ws2812b_delay T1L st
           in st)
        else
          (let st = HAL_GPIO_WritePin True st;
               st = ws2812b_delay T0H st;
               st = HAL_GPIO_WritePin False st;
               st = ws2812b_delay T0L st
           in st))"

text \<open>
  The outer loop, \<open>for (uint16_t i = 0; i < led_count * 3; i++)\<close>: \<open>i\<close> and \<open>led_count\<close>
  are \<open>uint16_t\<close>, the product and the comparison are on \<open>int\<close>, and \<open>i++\<close> wraps at
  \<open>2 ^ 16\<close>. A loop that does not end is the value \<open>None\<close>.
\<close>

partial_function (option) ws2812b_bytes ::
  "mem \<Rightarrow> 16 word \<Rightarrow> 16 word \<Rightarrow> ws_state \<Rightarrow> ws_state option"
where
  "ws2812b_bytes led_buffer led_count i st =
     (if uint i < uint led_count * 3 then
        ws2812b_bytes led_buffer led_count (i + 1)
          (let cur_byte = led_buffer (unat i) in ws2812b_bits cur_byte 8 st)
      else Some st)"

definition ws2812b_send :: "mem \<Rightarrow> 16 word \<Rightarrow> ws_state \<Rightarrow> ws_state option" where
  "ws2812b_send led_buffer led_count st =
     (let irq_state = primask st;
          st = disable_irq st
      in do { st \<leftarrow> ws2812b_bytes led_buffer led_count 0 st;
              let st = HAL_GPIO_WritePin False st;
              let st = HAL_Delay 1 st;
              Some (if \<not> irq_state then enable_irq st else st) })"


section \<open>Observations\<close>

text \<open>
  The vocabulary of the statements below. \<open>tx_event st b\<close> is the event of \<open>pcf_write b\<close>
  in state \<open>st\<close>; \<open>expander_bytes\<close> keeps, of a log, the bytes sent to the expander;
  \<open>nibble_transfer st b\<close> is one nibble transfer of frame \<open>b\<close>: the frame written, then
  one enable pulse (the frame with EN set, a hold, the frame again, a hold);
  \<open>backlight_ok\<close> says that the backlight flag is one of its two values.
\<close>

definition tx_event :: "lcd_state \<Rightarrow> 8 word \<Rightarrow> hal_event" where
  "tx_event st b = I2C_Tx (hi2c_lcd st) (push_bit 1 (ucast (lcd_addr st))) b"

fun expander_bytes :: "hal_event list \<Rightarrow> 8 word list" where
  "expander_bytes [] = []"
| "expander_bytes (I2C_Tx h a b # es) = b # expander_bytes es"
| "expander_bytes (e # es) = expander_bytes es"

definition nibble_transfer :: "lcd_state \<Rightarrow> 8 word \<Rightarrow> hal_event list" where
  "nibble_transfer st b =
     [tx_event st b, tx_event st (b OR P_CF_EN), Delay_ms 1, tx_event st b, Delay_ms 1]"

definition backlight_ok :: "lcd_state \<Rightarrow> bool" where
  "backlight_ok st \<longleftrightarrow> backlight st = 0 \<or> backlight st = P_CF_BL"

text \<open>
  What one command byte and one data byte look like on the log in state \<open>st\<close>: the
  transfer of the high nibble, the transfer of the low nibble, each frame carrying the
  backlight flag (and RS for data), then the settle delay of 2 or 1.
\<close>

definition cmd_frames :: "lcd_state \<Rightarrow> 8 word \<Rightarrow> hal_event list" where
  "cmd_frames st c =
     nibble_transfer st (push_bit 4 (drop_bit 4 c) OR backlight st)
     @ nibble_transfer st (push_bit 4 (c AND 0x0F) OR backlight st)
     @ [Delay_ms 2]"

definition data_frames :: "lcd_state \<Rightarrow> 8 word \<Rightarrow> hal_event list" where
  "data_frames st c =
     nibble_transfer st (push_bit 4 (drop_bit 4 c) OR P_CF_RS OR backlight st)
     @ nibble_transfer st (push_bit 4 (c AND 0x0F) OR P_CF_RS OR backlight st)
     @ [Delay_ms 1]"

text \<open>
  \<open>expander_out st\<close> is the byte the expander holds in state \<open>st\<close>, the last one
  written to it; \<open>emitted st st'\<close> is what a run from \<open>st\<close> to \<open>st'\<close> appended to the log.
\<close>

definition expander_out :: "lcd_state \<Rightarrow> 8 word option" where
  "expander_out st = (case rev (expander_bytes (hal_log st)) of [] \<Rightarrow> None | b # bs \<Rightarrow> Some b)"

definition emitted :: "'a hal_scheme \<Rightarrow> 'b hal_scheme \<Rightarrow> hal_event list" where
  "emitted st st' = drop (length (hal_log st)) (hal_log st')"

text \<open>
  The public operations of the driver as values, so that a statement can range over all
  of them: \<open>lcd_call g op\<close> is the call of \<open>op\<close>. The array arguments of the three
  helpers are the contents of their local buffers at entry.
\<close>

datatype lcd_op =
    Init nat "8 word"
  | Clear
  | Put_cur "8 word" "8 word"
  | Send_string mem
  | Backlight_on
  | Backlight_off
  | Ascii_test mem
  | Show_wrapped mem mem
  | Scroll_line "8 word" mem "16 word" mem

fun lcd_call :: "lcd_geom \<Rightarrow> lcd_op \<Rightarrow> lcd_state \<Rightarrow> lcd_state option" where
  "lcd_call g (Init hi2c addr7bit) st = Some (lcd_init g hi2c addr7bit st)"
| "lcd_call g Clear st = Some (lcd_clear st)"
| "lcd_call g (Put_cur row col) st = Some (lcd_put_cur g row col st)"
| "lcd_call g (Send_string str) st = lcd_send_string str st"
| "lcd_call g Backlight_on st = Some (lcd_backlight_on st)"
| "lcd_call g Backlight_off st = Some (lcd_backlight_off st)"
| "lcd_call g (Ascii_test buf) st = lcd_ascii_test g buf st"
| "lcd_call g (Show_wrapped s tmp) st = lcd_show_wrapped g s tmp st"
| "lcd_call g (Scroll_line row text delay_ms buf) st = lcd_scroll_line g row text delay_ms buf st"

fun sets_backlight :: "lcd_op \<Rightarrow> bool" where
  "sets_backlight (Init hi2c addr7bit) = True"
| "sets_backlight Backlight_on = True"
| "sets_backlight Backlight_off = True"
| "sets_backlight op = False"

text \<open>
  \<open>bl_frame st st'\<close>: from \<open>st\<close> to \<open>st'\<close> the three variables are unchanged, the log has
  only grown, and every byte sent to the expander carries the backlight flag on P3.
\<close>

definition bl_frame :: "lcd_state \<Rightarrow> lcd_state \<Rightarrow> bool" where
  "bl_frame st st' \<longleftrightarrow>
     hi2c_lcd st' = hi2c_lcd st \<and> lcd_addr st' = lcd_addr st \<and> backlight st' = backlight st \<and>
     (\<exists>es. hal_log st' = hal_log st @ es \<and>
       (\<forall>b \<in> set (expander_bytes es). b AND P_CF_BL = backlight st))"

text \<open>
  For the LED driver: \<open>bit_pulse clk v\<close> is the timed pulse of one bit of value \<open>v\<close> at
  core clock \<open>clk\<close> (line high, busy-wait, line low, busy-wait), \<open>byte_pulses\<close> the
  eight pulses of a byte from bit 7 down to bit 0, and \<open>transmission\<close> the pulses of
  \<open>led_count * 3\<close> bytes followed by the reset (line low, \<open>HAL_Delay(1)\<close>).
  \<open>busy_ns\<close> adds up the nanoseconds asked of \<open>ws2812b_delay\<close> in a log, and
  \<open>ws_reset\<close> is a state at the clock the source assumes, interrupts enabled.
\<close>

definition bit_pulse :: "32 word \<Rightarrow> bool \<Rightarrow> hal_event list" where
  "bit_pulse clk v =
     [GPIO_Write True,
      Nop_loop (if v then T1H else T0H) (unat (NS_TO_CYCLES clk (if v then T1H else T0H) div 2)),
      GPIO_Write False,
      Nop_loop (if v then T1L else T0L) (unat (NS_TO_CYCLES clk (if v then T1L else T0L) div 2))]"

definition byte_pulses :: "32 word \<Rightarrow> 8 word \<Rightarrow> hal_event list" where
  "byte_pulses clk b = concat (map (\<lambda>k. bit_pulse clk (bit b k)) [7, 6, 5, 4, 3, 2, 1, 0])"

definition transmission :: "32 word \<Rightarrow> mem \<Rightarrow> 16 word \<Rightarrow> hal_event list" where
  "transmission clk led_buffer led_count =
     concat (map (\<lambda>j. byte_pulses clk (led_buffer j)) [0 ..< unat led_count * 3])
     @ [GPIO_Write False, Delay_ms 1]"

definition ws_reset :: ws_state where
  "ws_reset = \<lparr>hal_log = [], SystemCoreClock = 168000000, primask = False\<rparr>"

fun busy_ns :: "hal_event list \<Rightarrow> nat" where
  "busy_ns [] = 0"
| "busy_ns (Nop_loop ns n # es) = unat ns + busy_ns es"
| "busy_ns (e # es) = busy_ns es"

declare ascii_fill.simps [simp del] ascii_rows.simps [simp del] wrapped_copy.simps [simp del]
  wrapped_rows.simps [simp del] scroll_copy.simps [simp del] scroll_steps.simps [simp del]
  nop_loop.simps [simp del]

section \<open>The LCD driver: frames and addresses\<close>

subsection \<open>Bits of the expander byte\<close>

lemmas bit_num = bit_numeral_word_iff bit_numeral_rec bit_1_iff bit_simps

lemma bit_P_CF:
  "bit P_CF_RS n \<longleftrightarrow> n = 0" "bit P_CF_RW n \<longleftrightarrow> n = 1"
  "bit P_CF_EN n \<longleftrightarrow> n = 2" "bit P_CF_BL n \<longleftrightarrow> n = 3"
  by (auto simp: P_CF_RS_def P_CF_RW_def P_CF_EN_def P_CF_BL_def bit_num split: nat.splits)

lemma HAL_Delay_sel [simp]:
  "hi2c_lcd (HAL_Delay n st) = hi2c_lcd st" "lcd_addr (HAL_Delay n st) = lcd_addr st"
  "backlight (HAL_Delay n st) = backlight st"
  "hal_log (HAL_Delay n st) = hal_log st @ [Delay_ms n]"
  by (simp_all add: HAL_Delay_def)

lemma pcf_write_sel [simp]:
  "hi2c_lcd (pcf_write b st) = hi2c_lcd st" "lcd_addr (pcf_write b st) = lcd_addr st"
  "backlight (pcf_write b st) = backlight st"
  "hal_log (pcf_write b st) = hal_log st @ [tx_event st b]"
  by (simp_all add: pcf_write_def tx_event_def)

lemma log_update_sel [simp]:
  "tx_event (st\<lparr>hal_log := es\<rparr>) = tx_event st"
  "backlight_ok (st\<lparr>hal_log := es\<rparr>) = backlight_ok st"
  "nibble_transfer (st\<lparr>hal_log := es\<rparr>) = nibble_transfer st"
  by (simp_all add: tx_event_def backlight_ok_def nibble_transfer_def fun_eq_iff)

text \<open>The byte that \<open>lcd_write_nibble\<close> assembles, bit by bit.\<close>

lemma bit_nibble_out:
  "bit (push_bit PCF_NIBBLE_SHIFT ((n::8 word) AND 0x0F) AND 0xFF OR
        ((ctrl AND (P_CF_RS OR P_CF_RW)) OR bl)) k \<longleftrightarrow>
   (4 \<le> k \<and> k < 8 \<and> bit n (k - 4)) \<or> (k < 2 \<and> bit ctrl k) \<or> bit bl k"
  by (auto simp: PCF_NIBBLE_SHIFT_def bit_num bit_P_CF split: nat.splits)

lemma nibble_out_eq:
  assumes "bl = 0 \<or> bl = P_CF_BL" and "ctrl = 0 \<or> ctrl = P_CF_RS"
  shows "push_bit PCF_NIBBLE_SHIFT ((n::8 word) AND 0x0F) AND 0xFF OR
        ((ctrl AND (P_CF_RS OR P_CF_RW)) OR bl) = push_bit 4 n OR ctrl OR bl"
  using assms by (intro bit_eqI) (simp only: bit_nibble_out, auto simp: bit_simps bit_P_CF)

lemma nibble_out_EN:
  assumes "bl = 0 \<or> bl = P_CF_BL" and "ctrl = 0 \<or> ctrl = P_CF_RS"
  shows "(push_bit 4 (n::8 word) OR ctrl OR bl) AND NOT P_CF_EN = push_bit 4 n OR ctrl OR bl"
  using assms by (intro bit_eqI) (auto simp: bit_simps bit_P_CF)

lemma lcd_write_nibble_transfer:
  assumes "backlight_ok st" and "ctrl = 0 \<or> ctrl = P_CF_RS"
  shows "lcd_write_nibble n ctrl st =
     st\<lparr>hal_log := hal_log st @ nibble_transfer st (push_bit 4 n OR ctrl OR backlight st)\<rparr>"
proof -
  have bl: "backlight st = 0 \<or> backlight st = P_CF_BL"
    using assms(1) by (simp add: backlight_ok_def)
  show ?thesis
    unfolding lcd_write_nibble_def lcd_pulse_enable_def Let_def
      nibble_out_eq [OF bl assms(2)]
    by (simp add: nibble_out_EN [OF bl assms(2)] pcf_write_def HAL_Delay_def tx_event_def
        nibble_transfer_def)
qed

lemma drop4_and15: "drop_bit 4 (c::8 word) AND 0x0F = drop_bit 4 c"
  by (rule bit_eqI) (auto simp: bit_num split: nat.splits dest: bit_imp_le_length)

lemma lcd_send_eq:
  assumes "backlight_ok st"
  shows "lcd_send_cmd c st =
     st\<lparr>hal_log := hal_log st
            @ nibble_transfer st (push_bit 4 (drop_bit 4 c) OR backlight st)
            @ nibble_transfer st (push_bit 4 (c AND 0x0F) OR backlight st)
            @ [Delay_ms 2]\<rparr>"
    and "lcd_send_data c st =
     st\<lparr>hal_log := hal_log st
            @ nibble_transfer st (push_bit 4 (drop_bit 4 c) OR P_CF_RS OR backlight st)
            @ nibble_transfer st (push_bit 4 (c AND 0x0F) OR P_CF_RS OR backlight st)
            @ [Delay_ms 1]\<rparr>"
  using assms
  by (simp_all add: lcd_send_cmd_def lcd_send_data_def Let_def lcd_write_nibble_transfer
      drop4_and15 HAL_Delay_def)

lemma frame_fields:
  fixes x bl :: "8 word"
  assumes "bl = 0 \<or> bl = P_CF_BL"
  shows "drop_bit 4 (push_bit 4 x OR bl) = x AND 0x0F"
    and "drop_bit 4 (push_bit 4 x OR bl OR P_CF_RS) = x AND 0x0F"
    and "(push_bit 4 x OR bl) AND P_CF_EN = 0"
    and "(push_bit 4 x OR bl OR P_CF_RS) AND P_CF_EN = 0"
    and "(push_bit 4 x OR bl) AND P_CF_RS = 0"
    and "(push_bit 4 x OR bl OR P_CF_RS) AND P_CF_RS = P_CF_RS"
    and "((push_bit 4 x OR bl) OR P_CF_EN) AND P_CF_RS = 0"
    and "((push_bit 4 x OR bl OR P_CF_RS) OR P_CF_EN) AND P_CF_RS = P_CF_RS"
  using assms
  by (auto intro!: bit_eqI simp: bit_num bit_P_CF split: nat.splits dest: bit_imp_le_length)

lemma frames_log_update [simp]:
  "cmd_frames (st\<lparr>hal_log := es\<rparr>) = cmd_frames st"
  "data_frames (st\<lparr>hal_log := es\<rparr>) = data_frames st"
  by (simp_all add: cmd_frames_def data_frames_def fun_eq_iff)

lemma lcd_send_log:
  assumes "backlight_ok st"
  shows "lcd_send_cmd c st = st\<lparr>hal_log := hal_log st @ cmd_frames st c\<rparr>"
    and "lcd_send_data c st = st\<lparr>hal_log := hal_log st @ data_frames st c\<rparr>"
  using lcd_send_eq [OF assms] by (simp_all add: cmd_frames_def data_frames_def)

lemma expander_bytes_frames:
  "expander_bytes (cmd_frames st c) =
     [push_bit 4 (drop_bit 4 c) OR backlight st,
      (push_bit 4 (drop_bit 4 c) OR backlight st) OR P_CF_EN,
      push_bit 4 (drop_bit 4 c) OR backlight st,
      push_bit 4 (c AND 0x0F) OR backlight st,
      (push_bit 4 (c AND 0x0F) OR backlight st) OR P_CF_EN,
      push_bit 4 (c AND 0x0F) OR backlight st]"
  "expander_bytes (data_frames st c) =
     [push_bit 4 (drop_bit 4 c) OR P_CF_RS OR backlight st,
      (push_bit 4 (drop_bit 4 c) OR P_CF_RS OR backlight st) OR P_CF_EN,
      push_bit 4 (drop_bit 4 c) OR P_CF_RS OR backlight st,
      push_bit 4 (c AND 0x0F) OR P_CF_RS OR backlight st,
      (push_bit 4 (c AND 0x0F) OR P_CF_RS OR backlight st) OR P_CF_EN,
      push_bit 4 (c AND 0x0F) OR P_CF_RS OR backlight st]"
  by (simp_all add: cmd_frames_def data_frames_def nibble_transfer_def tx_event_def)

text \<open>A run of calls that each only append to the log appends the logs in order.\<close>

lemma fold_log:
  fixes st :: lcd_state
  assumes "\<And>x st. x \<in> set xs \<Longrightarrow> backlight_ok st \<Longrightarrow>
             f x st = st\<lparr>hal_log := hal_log st @ L st x\<rparr>"
    and "\<And>st es x. L (st\<lparr>hal_log := es\<rparr>) x = L st x"
    and "backlight_ok st"
  shows "fold f xs st = st\<lparr>hal_log := hal_log st @ concat (map (L st) xs)\<rparr>"
  using assms
proof (induction xs arbitrary: st)
  case Nil
  show ?case by simp
next
  case (Cons x xs)
  define st1 where "st1 = st\<lparr>hal_log := hal_log st @ L st x\<rparr>"
  have s1: "f x st = st1"
    unfolding st1_def using Cons.prems(3) by (intro Cons.prems(1)) simp_all
  have ok1: "backlight_ok st1"
    using Cons.prems(3) by (simp add: st1_def)
  have "fold f xs st1 = st1\<lparr>hal_log := hal_log st1 @ concat (map (L st1) xs)\<rparr>"
    using Cons.prems(1,2) ok1 by (intro Cons.IH) simp_all
  moreover have "L st1 = L st"
    by (simp add: st1_def fun_eq_iff Cons.prems(2))
  ultimately show ?case
    by (simp add: s1) (simp add: st1_def)
qed

lemma fold_send_data_log:
  assumes "backlight_ok st"
  shows "fold lcd_send_data cs st =
     st\<lparr>hal_log := hal_log st @ concat (map (data_frames st) cs)\<rparr>"
  using assms by (intro fold_log) (simp_all add: lcd_send_log)

text \<open>The definitions of the low level, to evaluate a call on a concrete state.\<close>

lemmas lcd_low_level_defs =
  lcd_send_cmd_def lcd_send_data_def lcd_write_nibble_def lcd_pulse_enable_def pcf_write_def
  HAL_Delay_def Let_def PCF_NIBBLE_SHIFT_def P_CF_RS_def P_CF_RW_def P_CF_EN_def P_CF_BL_def

text \<open>
  C1. Under the invariant of the backlight flag, \<open>lcd_send_cmd c\<close> and \<open>lcd_send_data c\<close>
  each append to the log exactly two nibble transfers and the settle delay. The first
  transfer carries the high nibble of \<open>c\<close> on D4..D7, the second the low nibble. Each
  transfer is the frame followed by one enable pulse: the frame with EN set, then the
  frame again, in which EN is clear. Every byte of a command has RS clear, every byte of
  a data transfer has RS set.
\<close>

theorem lcd_send_byte_two_nibbles:
  assumes "backlight st = 0 \<or> backlight st = P_CF_BL"
  shows "let ch = push_bit 4 (drop_bit 4 c) OR backlight st;
             cl = push_bit 4 (c AND 0x0F) OR backlight st;
             dh = ch OR P_CF_RS;
             dl = cl OR P_CF_RS
         in lcd_send_cmd c st =
              st\<lparr>hal_log := hal_log st @ nibble_transfer st ch @ nibble_transfer st cl @ [Delay_ms 2]\<rparr>
          \<and> lcd_send_data c st =
              st\<lparr>hal_log := hal_log st @ nibble_transfer st dh @ nibble_transfer st dl @ [Delay_ms 1]\<rparr>
          \<and> drop_bit 4 ch = drop_bit 4 c \<and> drop_bit 4 cl = c AND 0x0F
          \<and> drop_bit 4 dh = drop_bit 4 c \<and> drop_bit 4 dl = c AND 0x0F
          \<and> (\<forall>b \<in> {ch, cl, dh, dl}. b AND P_CF_EN = 0 \<and> (b OR P_CF_EN) AND P_CF_EN = P_CF_EN)
          \<and> (\<forall>b \<in> set (expander_bytes (nibble_transfer st ch @ nibble_transfer st cl)).
                b AND P_CF_RS = 0)
          \<and> (\<forall>b \<in> set (expander_bytes (nibble_transfer st dh @ nibble_transfer st dl)).
                b AND P_CF_RS = P_CF_RS)"
proof -
  define ch where "ch = push_bit 4 (drop_bit 4 c) OR backlight st"
  define cl where "cl = push_bit 4 (c AND 0x0F) OR backlight st"
  define dh where "dh = ch OR P_CF_RS"
  define dl where "dl = cl OR P_CF_RS"
  have ok: "backlight_ok st"
    using assms by (simp add: backlight_ok_def)
  have dh: "dh = push_bit 4 (drop_bit 4 c) OR P_CF_RS OR backlight st"
    and dl: "dl = push_bit 4 (c AND 0x0F) OR P_CF_RS OR backlight st"
    by (simp_all add: dh_def dl_def ch_def cl_def ac_simps)
  have dh': "dh = push_bit 4 (drop_bit 4 c) OR backlight st OR P_CF_RS"
    and dl': "dl = push_bit 4 (c AND 0x0F) OR backlight st OR P_CF_RS"
    by (simp_all add: dh_def dl_def ch_def cl_def ac_simps)
  note f = frame_fields [OF assms]
  have cmd: "lcd_send_cmd c st =
      st\<lparr>hal_log := hal_log st @ nibble_transfer st ch @ nibble_transfer st cl @ [Delay_ms 2]\<rparr>"
    unfolding ch_def cl_def by (rule lcd_send_eq(1) [OF ok])
  have dat: "lcd_send_data c st =
      st\<lparr>hal_log := hal_log st @ nibble_transfer st dh @ nibble_transfer st dl @ [Delay_ms 1]\<rparr>"
    unfolding dh dl by (rule lcd_send_eq(2) [OF ok])
  have nib: "drop_bit 4 ch = drop_bit 4 c" "drop_bit 4 cl = c AND 0x0F"
    "drop_bit 4 dh = drop_bit 4 c" "drop_bit 4 dl = c AND 0x0F"
    unfolding ch_def cl_def dh' dl' f(1,2) by (simp_all only: drop4_and15 and.right_idem)
  have en: "b AND P_CF_EN = 0 \<and> (b OR P_CF_EN) AND P_CF_EN = P_CF_EN"
    if "b \<in> {ch, cl, dh, dl}" for b
  proof -
    have "b AND P_CF_EN = 0"
      using that unfolding ch_def cl_def dh' dl' by (auto simp only: f(3,4))
    moreover have "(b OR P_CF_EN) AND P_CF_EN = P_CF_EN"
      by (rule bit_eqI) (auto simp: bit_simps)
    ultimately show ?thesis ..
  qed
  have rs0: "b AND P_CF_RS = 0"
    if "b \<in> set (expander_bytes (nibble_transfer st ch @ nibble_transfer st cl))" for b
  proof -
    from that have "b \<in> {ch, ch OR P_CF_EN, cl, cl OR P_CF_EN}"
      by (auto simp: nibble_transfer_def tx_event_def)
    then show ?thesis
      unfolding ch_def cl_def by (auto simp only: f(5,7))
  qed
  have rs1: "b AND P_CF_RS = P_CF_RS"
    if "b \<in> set (expander_bytes (nibble_transfer st dh @ nibble_transfer st dl))" for b
  proof -
    from that have "b \<in> {dh, dh OR P_CF_EN, dl, dl OR P_CF_EN}"
      by (auto simp: nibble_transfer_def tx_event_def)
    then show ?thesis
      unfolding dh' dl' by (auto simp only: f(6,8))
  qed
  show ?thesis
    unfolding Let_def ch_def [symmetric] cl_def [symmetric] dh_def [symmetric] dl_def [symmetric]
    using cmd dat nib en rs0 rs1 by blast
qed

theorem lcd_send_byte_two_nibbles_witness:
  "(backlight lcd_reset = 0 \<or> backlight lcd_reset = P_CF_BL)
   \<and> hal_log (lcd_send_cmd 0x28 lcd_reset) =
       [I2C_Tx 0 0x4E 0x28, I2C_Tx 0 0x4E 0x2C, Delay_ms 1, I2C_Tx 0 0x4E 0x28, Delay_ms 1,
        I2C_Tx 0 0x4E 0x88, I2C_Tx 0 0x4E 0x8C, Delay_ms 1, I2C_Tx 0 0x4E 0x88, Delay_ms 1,
        Delay_ms 2]
   \<and> hal_log (lcd_send_data 0x41 lcd_reset) =
       [I2C_Tx 0 0x4E 0x49, I2C_Tx 0 0x4E 0x4D, Delay_ms 1, I2C_Tx 0 0x4E 0x49, Delay_ms 1,
        I2C_Tx 0 0x4E 0x19, I2C_Tx 0 0x4E 0x1D, Delay_ms 1, I2C_Tx 0 0x4E 0x19, Delay_ms 1,
        Delay_ms 1]"
proof -
  have h: "backlight lcd_reset = 0 \<or> backlight lcd_reset = P_CF_BL"
    by (simp add: lcd_reset_def)
  show ?thesis
    using h lcd_send_byte_two_nibbles [OF h, of "0x28"] lcd_send_byte_two_nibbles [OF h, of "0x41"]
    by (simp add: Let_def nibble_transfer_def tx_event_def lcd_reset_def P_CF_RS_def P_CF_EN_def
        P_CF_BL_def)
qed


subsection \<open>Cursor addresses\<close>

lemma nat_lt_2_cases: "(n::nat) < 2 \<Longrightarrow> n = 0 \<or> n = 1" by arith
lemma nat_lt_4_cases: "(n::nat) < 4 \<Longrightarrow> n = 0 \<or> n = 1 \<or> n = 2 \<or> n = 3" by arith

lemma unat_lt_cases:
  fixes w :: "8 word"
  shows "unat w < 2 \<Longrightarrow> w = 0 \<or> w = 1"
    and "unat w < 4 \<Longrightarrow> w = 0 \<or> w = 1 \<or> w = 2 \<or> w = 3"
  by (drule nat_lt_2_cases, simp add: word_unat_eq_iff)
     (drule nat_lt_4_cases, simp add: word_unat_eq_iff)

lemma in_range_no_clamp:
  fixes w :: "8 word"
  shows "unat w < n \<Longrightarrow> \<not> int n \<le> uint w"
  unfolding uint_nat by linarith

lemma lcd_put_cur_no_clamp:
  assumes "unat row < LCD_ROWS g" and "unat col < LCD_COLS g"
  shows "lcd_put_cur g row col st =
     lcd_send_cmd (0x80 OR
       (if LCD_ROWS g = 2 \<and> LCD_COLS g = 16 then (if row = 0 then 0x00 else 0x40) + col
        else if LCD_ROWS g = 4 \<and> LCD_COLS g = 20 then
          (if row = 0 then 0x00 + col
           else if row = 1 then 0x40 + col
           else if row = 2 then 0x14 + col
           else if row = 3 then 0x54 + col
           else 0x00 + col)
        else (if row = 0 then 0x00 else 0x40) + col)) st"
  unfolding lcd_put_cur_def Let_def
    if_not_P [OF in_range_no_clamp [OF assms(1)]] if_not_P [OF in_range_no_clamp [OF assms(2)]]
  by (rule refl)

lemma lcd_put_cur_table:
  "(unat row < LCD_ROWS i2c_h \<and> unat col < LCD_COLS i2c_h \<longrightarrow>
      lcd_put_cur i2c_h row col st = lcd_send_cmd (0x80 OR ([0x00, 0x40] ! unat row + col)) st)
   \<and> (unat row < LCD_ROWS lcd_20x4 \<and> unat col < LCD_COLS lcd_20x4 \<longrightarrow>
      lcd_put_cur lcd_20x4 row col st =
        lcd_send_cmd (0x80 OR ([0x00, 0x40, 0x14, 0x54] ! unat row + col)) st)"
proof (intro conjI impI)
  assume a: "unat row < LCD_ROWS i2c_h \<and> unat col < LCD_COLS i2c_h"
  then have r: "row = 0 \<or> row = 1"
    by (simp add: i2c_h_def unat_lt_cases(1))
  from a have "lcd_put_cur i2c_h row col st =
      lcd_send_cmd (0x80 OR ((if row = 0 then 0x00 else 0x40) + col)) st"
    by (simp add: lcd_put_cur_no_clamp) (simp add: i2c_h_def)
  then show "lcd_put_cur i2c_h row col st =
      lcd_send_cmd (0x80 OR ([0x00, 0x40] ! unat row + col)) st"
    using r by auto
next
  assume a: "unat row < LCD_ROWS lcd_20x4 \<and> unat col < LCD_COLS lcd_20x4"
  then have r: "row = 0 \<or> row = 1 \<or> row = 2 \<or> row = 3"
    by (simp add: lcd_20x4_def unat_lt_cases(2))
  from a have "lcd_put_cur lcd_20x4 row col st = lcd_send_cmd (0x80 OR
          (if row = 0 then 0x00 + col
           else if row = 1 then 0x40 + col
           else if row = 2 then 0x14 + col
           else if row = 3 then 0x54 + col
           else 0x00 + col)) st"
    by (simp add: lcd_put_cur_no_clamp) (simp add: lcd_20x4_def)
  then show "lcd_put_cur lcd_20x4 row col st =
      lcd_send_cmd (0x80 OR ([0x00, 0x40, 0x14, 0x54] ! unat row + col)) st"
    using r by auto
qed

text \<open>
  C2. Under the invariant of the backlight flag, on the two tabulated geometries and for
  a row and a column inside the display, \<open>lcd_put_cur\<close> changes nothing but the log, to
  which it appends the frames of exactly one command byte: \<open>0x80\<close> OR'd with the row's
  base address (16x2: 0x00, 0x40; 20x4: 0x00, 0x40, 0x14, 0x54) plus the column. The
  frames of a command byte \<open>c\<close> put six bytes on the expander: the high nibble of \<open>c\<close>
  with EN clear, set, clear, then the low nibble likewise.
\<close>

theorem lcd_put_cur_in_range:
  assumes "backlight st = 0 \<or> backlight st = P_CF_BL"
  shows "(unat row < LCD_ROWS i2c_h \<and> unat col < LCD_COLS i2c_h \<longrightarrow>
            lcd_put_cur i2c_h row col st =
              st\<lparr>hal_log := hal_log st @
                cmd_frames st (0x80 OR ([0x00, 0x40] ! unat row + col))\<rparr>)
       \<and> (unat row < LCD_ROWS lcd_20x4 \<and> unat col < LCD_COLS lcd_20x4 \<longrightarrow>
            lcd_put_cur lcd_20x4 row col st =
              st\<lparr>hal_log := hal_log st @
                cmd_frames st (0x80 OR ([0x00, 0x40, 0x14, 0x54] ! unat row + col))\<rparr>)
       \<and> expander_bytes (cmd_frames st c) =
            [push_bit 4 (drop_bit 4 c) OR backlight st,
             (push_bit 4 (drop_bit 4 c) OR backlight st) OR P_CF_EN,
             push_bit 4 (drop_bit 4 c) OR backlight st,
             push_bit 4 (c AND 0x0F) OR backlight st,
             (push_bit 4 (c AND 0x0F) OR backlight st) OR P_CF_EN,
             push_bit 4 (c AND 0x0F) OR backlight st]"
proof -
  have ok: "backlight_ok st"
    using assms by (simp add: backlight_ok_def)
  show ?thesis
    using lcd_put_cur_table [of row col st]
    by (simp add: lcd_send_log(1) [OF ok] expander_bytes_frames(1))
qed

theorem lcd_put_cur_in_range_witness:
  "(backlight lcd_reset = 0 \<or> backlight lcd_reset = P_CF_BL)
   \<and> (unat (1 :: 8 word) < LCD_ROWS i2c_h \<and> unat (5 :: 8 word) < LCD_COLS i2c_h)
   \<and> hal_log (lcd_put_cur i2c_h 1 5 lcd_reset) =
       [I2C_Tx 0 0x4E 0xC8, I2C_Tx 0 0x4E 0xCC, Delay_ms 1, I2C_Tx 0 0x4E 0xC8, Delay_ms 1,
        I2C_Tx 0 0x4E 0x58, I2C_Tx 0 0x4E 0x5C, Delay_ms 1, I2C_Tx 0 0x4E 0x58, Delay_ms 1,
        Delay_ms 2]
   \<and> (unat (3 :: 8 word) < LCD_ROWS lcd_20x4 \<and> unat (19 :: 8 word) < LCD_COLS lcd_20x4)
   \<and> expander_bytes (hal_log (lcd_put_cur lcd_20x4 3 19 lcd_reset)) =
       [0xE8, 0xEC, 0xE8, 0x78, 0x7C, 0x78]"
proof -
  have h: "backlight lcd_reset = 0 \<or> backlight lcd_reset = P_CF_BL"
    by (simp add: lcd_reset_def)
  have g: "unat (1 :: 8 word) < LCD_ROWS i2c_h \<and> unat (5 :: 8 word) < LCD_COLS i2c_h"
    "unat (3 :: 8 word) < LCD_ROWS lcd_20x4 \<and> unat (19 :: 8 word) < LCD_COLS lcd_20x4"
    by (simp_all add: i2c_h_def lcd_20x4_def)
  have run: "hal_log (lcd_put_cur i2c_h 1 5 lcd_reset) =
       [I2C_Tx 0 0x4E 0xC8, I2C_Tx 0 0x4E 0xCC, Delay_ms 1, I2C_Tx 0 0x4E 0xC8, Delay_ms 1,
        I2C_Tx 0 0x4E 0x58, I2C_Tx 0 0x4E 0x5C, Delay_ms 1, I2C_Tx 0 0x4E 0x58, Delay_ms 1,
        Delay_ms 2]"
    by (simp add: lcd_put_cur_def i2c_h_def lcd_reset_def lcd_low_level_defs)
  show ?thesis
    using h g run lcd_put_cur_in_range [OF h, of 1 5] lcd_put_cur_in_range [OF h, of 3 19]
    by (simp add: cmd_frames_def nibble_transfer_def tx_event_def lcd_reset_def
        P_CF_EN_def P_CF_BL_def)
qed




subsection \<open>Backlight\<close>

lemma expander_bytes_append:
  "expander_bytes (es @ fs) = expander_bytes es @ expander_bytes fs"
  by (induction es rule: expander_bytes.induct) simp_all

lemma expander_out_pcf_write: "expander_out (pcf_write b st) = Some b"
  by (simp add: expander_out_def expander_bytes_append tx_event_def)

text \<open>
  C6, as amended. \<open>lcd_backlight_on\<close> sets the flag and writes the byte \<open>P_CF_BL\<close> alone:
  two calls in a row write the same byte, the second changes nothing but the log, and in
  that byte RS, RW, EN and D4..D7 are all clear, whatever the expander held before.
\<close>

theorem lcd_backlight_on_twice:
  "lcd_backlight_on st = st\<lparr>backlight := P_CF_BL, hal_log := hal_log st @ [tx_event st P_CF_BL]\<rparr>
   \<and> lcd_backlight_on (lcd_backlight_on st) =
       (lcd_backlight_on st)\<lparr>hal_log := hal_log (lcd_backlight_on st) @ [tx_event st P_CF_BL]\<rparr>
   \<and> expander_out (lcd_backlight_on st) = Some P_CF_BL
   \<and> expander_out (lcd_backlight_on (lcd_backlight_on st)) = Some P_CF_BL
   \<and> P_CF_BL AND (P_CF_RS OR P_CF_RW OR P_CF_EN OR 0xF0) = 0"
proof -
  have 1: "lcd_backlight_on st =
      st\<lparr>backlight := P_CF_BL, hal_log := hal_log st @ [tx_event st P_CF_BL]\<rparr>" for st
    by (simp add: lcd_backlight_on_def Let_def pcf_write_def tx_event_def)
  have 2: "lcd_backlight_on (lcd_backlight_on st) =
       (lcd_backlight_on st)\<lparr>hal_log := hal_log (lcd_backlight_on st) @ [tx_event st P_CF_BL]\<rparr>"
    by (simp add: 1 tx_event_def)
  have 3: "expander_out (lcd_backlight_on st) = Some P_CF_BL" for st
    by (simp add: lcd_backlight_on_def Let_def expander_out_pcf_write)
  have 4: "P_CF_BL AND (P_CF_RS OR P_CF_RW OR P_CF_EN OR 0xF0) = 0"
    by (rule bit_eqI) (auto simp: bit_num bit_P_CF split: nat.splits)
  show ?thesis using 1 2 3 4 by blast
qed

text \<open>
  C6, as stated, fails: after \<open>lcd_init\<close> the expander holds \<open>0x68\<close> (the low nibble of
  the entry-mode command with the backlight bit), and \<open>lcd_backlight_on\<close> then writes
  \<open>0x08\<close>, which differs from it on D5 and D6, not on the backlight bit.
\<close>

theorem lcd_backlight_on_alters_pins_counterexample:
  "expander_out (lcd_init i2c_h 1 0x27 lcd_reset) = Some 0x68
   \<and> expander_out (lcd_backlight_on (lcd_init i2c_h 1 0x27 lcd_reset)) = Some 0x08
   \<and> (0x68 XOR 0x08) AND NOT P_CF_BL \<noteq> (0 :: 8 word)"
  by (simp add: lcd_init_def Let_def i2c_h_def lcd_reset_def lcd_send_eq lcd_write_nibble_transfer
    backlight_ok_def expander_out_def expander_bytes_append nibble_transfer_def tx_event_def
    lcd_backlight_on_def P_CF_BL_def P_CF_EN_def)

section \<open>The LCD driver: strings\<close>

lemma lcd_send_string_terminated:
  assumes "\<forall>k<n. str k \<noteq> 0" and "str n = 0"
  shows "lcd_send_string str st = Some (fold lcd_send_data (map str [0..<n]) st)"
  using assms
proof (induction n arbitrary: str st)
  case 0
  then show ?case by (subst lcd_send_string.simps) simp
next
  case (Suc n)
  have nz: "str 0 \<noteq> 0" using Suc.prems(1) by blast
  have "lcd_send_string (\<lambda>k. str (Suc k)) (lcd_send_data (str 0) st) =
      Some (fold lcd_send_data (map (\<lambda>k. str (Suc k)) [0..<n]) (lcd_send_data (str 0) st))"
    using Suc.prems by (intro Suc.IH) auto
  then show ?case
    using nz by (subst lcd_send_string.simps) (simp add: map_upt_Suc del: upt_Suc)
qed

lemma wrapped_copy_run:
  assumes "i \<le> j" and "j \<le> LCD_COLS g"
    and "\<forall>k. i \<le> k \<and> k < j \<longrightarrow> s (offset + k) \<noteq> 0"
    and "j = LCD_COLS g \<or> s (offset + j) = 0"
  shows "wrapped_copy g s offset i tmp =
     (j, \<lambda>k. if i \<le> k \<and> k < j then s (offset + k) else tmp k)"
  using assms
proof (induction "j - i" arbitrary: i tmp)
  case 0
  then have "i = j" by simp
  then show ?case using "0.prems" by (subst wrapped_copy.simps) (auto simp: fun_eq_iff)
next
  case (Suc d)
  then have lt: "i < j" by simp
  then have c: "i < LCD_COLS g \<and> s (offset + i) \<noteq> 0"
    using Suc.prems by auto
  have "wrapped_copy g s offset (Suc i) (tmp(i := s (offset + i))) =
      (j, \<lambda>k. if Suc i \<le> k \<and> k < j then s (offset + k) else (tmp(i := s (offset + i))) k)"
    using Suc.hyps(2) Suc.prems lt by (intro Suc.hyps(1)) auto
  moreover have "(\<lambda>k. if Suc i \<le> k \<and> k < j then s (offset + k) else (tmp(i := s (offset + i))) k) =
      (\<lambda>k. if i \<le> k \<and> k < j then s (offset + k) else tmp k)"
    using lt by (auto simp: fun_eq_iff)
  ultimately show ?case using c by (subst wrapped_copy.simps) simp
qed

lemma map_chunk: "map (\<lambda>k. s (offset + k)) [0..<n] = map s [offset..<offset + n]"
  by (induction n) simp_all

text \<open>
  One iteration of the row loop on a row that holds \<open>n\<close> characters: the cursor is put at
  the start of the row and the \<open>n\<close> characters are sent.
\<close>

lemma wrapped_row_step:
  fixes tmp :: mem
  assumes "n \<le> LCD_COLS g"
    and "\<forall>k<n. s (r * LCD_COLS g + k) \<noteq> 0"
    and "n = LCD_COLS g \<or> s (r * LCD_COLS g + n) = 0"
  defines "tmp' \<equiv> (\<lambda>k. if k < n then s (r * LCD_COLS g + k) else tmp k)(n := 0)"
  shows "wrapped_copy g s (r * LCD_COLS g) 0 tmp =
           (n, \<lambda>k. if k < n then s (r * LCD_COLS g + k) else tmp k)"
    and "lcd_send_string tmp' st =
           Some (fold lcd_send_data (map s [r * LCD_COLS g ..< r * LCD_COLS g + n]) st)"
proof -
  show "wrapped_copy g s (r * LCD_COLS g) 0 tmp =
           (n, \<lambda>k. if k < n then s (r * LCD_COLS g + k) else tmp k)"
    using wrapped_copy_run [of 0 n g s "r * LCD_COLS g" tmp] assms(1-3) by simp
  have "map tmp' [0..<n] = map (\<lambda>k. s (r * LCD_COLS g + k)) [0..<n]"
    by (simp add: tmp'_def)
  moreover have "lcd_send_string tmp' st = Some (fold lcd_send_data (map tmp' [0..<n]) st)"
    using assms(2) by (intro lcd_send_string_terminated) (auto simp: tmp'_def)
  ultimately show "lcd_send_string tmp' st =
           Some (fold lcd_send_data (map s [r * LCD_COLS g ..< r * LCD_COLS g + n]) st)"
    by (simp add: map_chunk)
qed


lemma wrapped_rows_step:
  fixes tmp :: mem and st :: lcd_state
  assumes "r < LCD_ROWS g" and "n \<le> LCD_COLS g"
    and "\<forall>k<n. s (r * LCD_COLS g + k) \<noteq> 0"
    and "n = LCD_COLS g \<or> s (r * LCD_COLS g + n) = 0"
  defines "st' \<equiv> fold lcd_send_data (map s [r * LCD_COLS g ..< r * LCD_COLS g + n])
                    (lcd_put_cur g (word_of_nat r) 0 st)"
  shows "wrapped_rows g s r tmp st =
     (if s (r * LCD_COLS g + n) = 0 then Some st'
      else wrapped_rows g s (Suc r)
             ((\<lambda>k. if k < n then s (r * LCD_COLS g + k) else tmp k)(n := 0)) st')"
  unfolding st'_def
  by (subst wrapped_rows.simps)
     (simp add: assms(1) Let_def wrapped_row_step [OF assms(2-4)])

lemma wrapped_rows_full:
  assumes "0 < LCD_COLS g" and "r \<le> LCD_ROWS g"
    and "\<forall>k < LCD_ROWS g * LCD_COLS g. s k \<noteq> 0" and "s (LCD_ROWS g * LCD_COLS g) = 0"
  shows "wrapped_rows g s r tmp st =
     Some (fold (\<lambda>r st. fold lcd_send_data
                  (map s [r * LCD_COLS g ..< r * LCD_COLS g + LCD_COLS g])
                  (lcd_put_cur g (word_of_nat r) 0 st))
             [r ..< LCD_ROWS g] st)"
  using assms(2)
proof (induction "LCD_ROWS g - r" arbitrary: r tmp st)
  case 0
  then have "r = LCD_ROWS g" by simp
  then show ?case by (subst wrapped_rows.simps) simp
next
  case (Suc d)
  then have lt: "r < LCD_ROWS g" by simp
  have in_str: "r * LCD_COLS g + k < LCD_ROWS g * LCD_COLS g" if "k < LCD_COLS g" for k
  proof -
    have "r * LCD_COLS g + k < Suc r * LCD_COLS g" using that by simp
    also have "\<dots> \<le> LCD_ROWS g * LCD_COLS g" using lt by (intro mult_le_mono1) simp
    finally show ?thesis .
  qed
  have nz: "\<forall>k < LCD_COLS g. s (r * LCD_COLS g + k) \<noteq> 0"
    using in_str assms(3) by blast
  note step = wrapped_rows_step [OF lt order_refl nz, of tmp st, simplified]
  show ?case
  proof (cases "Suc r = LCD_ROWS g")
    case True
    then have "r * LCD_COLS g + LCD_COLS g = LCD_ROWS g * LCD_COLS g"
      by (metis mult_Suc add.commute)
    then have "s (r * LCD_COLS g + LCD_COLS g) = 0" using assms(4) by simp
    moreover have "[r ..< LCD_ROWS g] = [r]"
      unfolding True [symmetric] by simp
    ultimately show ?thesis using step by simp
  next
    case False
    then have lt': "Suc r < LCD_ROWS g" using lt by simp
    have "r * LCD_COLS g + LCD_COLS g = Suc r * LCD_COLS g" by simp
    also have "\<dots> < LCD_ROWS g * LCD_COLS g"
      using lt' assms(1) by (intro mult_less_mono1) simp_all
    finally have "s (r * LCD_COLS g + LCD_COLS g) \<noteq> 0" using assms(3) by blast
    moreover have "[r ..< LCD_ROWS g] = r # [Suc r ..< LCD_ROWS g]"
      using lt by (simp add: upt_conv_Cons)
    moreover have "LCD_ROWS g - Suc r = d" using Suc.hyps(2) by simp
    ultimately show ?thesis
      using step Suc.hyps(1) [of "Suc r"] lt' by simp
  qed
qed


lemma concat_chunks:
  "concat (map (\<lambda>r. map s [r * c ..< r * c + c]) [0 ..< n]) = map s [0 ..< n * c]"
proof (induction n)
  case 0
  show ?case by simp
next
  case (Suc n)
  have "[0 ..< n * c + c] = [0 ..< n * c] @ [n * c ..< n * c + c]"
    by (metis le_add1 upt_add_eq_append zero_le)
  then show ?case using Suc by (simp add: add.commute)
qed

lemma lcd_show_wrapped_full_calls:
  assumes "0 < LCD_COLS g"
    and "\<forall>k < LCD_ROWS g * LCD_COLS g. s k \<noteq> 0" and "s (LCD_ROWS g * LCD_COLS g) = 0"
  shows "lcd_show_wrapped g s tmp st =
     Some (fold (\<lambda>r st. fold lcd_send_data
                  (map s [r * LCD_COLS g ..< r * LCD_COLS g + LCD_COLS g])
                  (lcd_put_cur g (word_of_nat r) 0 st))
             [0 ..< LCD_ROWS g] st)"
  unfolding lcd_show_wrapped_def
  using wrapped_rows_full [OF assms(1) _ assms(2,3), of 0 tmp st] by simp

lemma lcd_show_wrapped_short_calls:
  assumes "0 < LCD_ROWS g" and "n < LCD_COLS g"
    and "\<forall>k<n. s k \<noteq> 0" and "s n = 0"
  shows "lcd_show_wrapped g s tmp st =
     Some (fold lcd_send_data (map s [0 ..< n]) (lcd_put_cur g 0 0 st))"
  unfolding lcd_show_wrapped_def
  using wrapped_rows_step [of 0 g n s tmp st] assms by simp

text \<open>The cursor command at the start of a row.\<close>

lemma lcd_put_cur_origin:
  assumes "backlight_ok st" and "0 < LCD_ROWS g" and "0 < LCD_COLS g"
  shows "lcd_put_cur g 0 0 st = st\<lparr>hal_log := hal_log st @ cmd_frames st 0x80\<rparr>"
  using lcd_put_cur_no_clamp [of 0 g 0 st] assms(2,3)
  by (simp add: lcd_send_log(1) [OF assms(1)])

lemma lcd_put_cur_row_start:
  assumes "backlight_ok st"
    and "g = i2c_h \<and> base = [0x00, 0x40] \<or> g = lcd_20x4 \<and> base = [0x00, 0x40, 0x14, 0x54]"
    and "r < LCD_ROWS g"
  shows "lcd_put_cur g (word_of_nat r) 0 st =
     st\<lparr>hal_log := hal_log st @ cmd_frames st (0x80 OR base ! r)\<rparr>"
  using assms(2)
proof
  assume a: "g = i2c_h \<and> base = [0x00, 0x40]"
  then have "r = 0 \<or> r = 1"
    using assms(3) by (intro nat_lt_2_cases) (simp add: i2c_h_def)
  then show ?thesis
    using a by (auto simp: lcd_put_cur_def Let_def i2c_h_def lcd_send_log(1) [OF assms(1)])
next
  assume a: "g = lcd_20x4 \<and> base = [0x00, 0x40, 0x14, 0x54]"
  then have "r = 0 \<or> r = 1 \<or> r = 2 \<or> r = 3"
    using assms(3) by (intro nat_lt_4_cases) (simp add: lcd_20x4_def)
  then show ?thesis
    using a by (auto simp: lcd_put_cur_def Let_def lcd_20x4_def lcd_send_log(1) [OF assms(1)])
qed

text \<open>
  C7. Under the invariant of the backlight flag and on the two tabulated geometries, on a
  string of exactly \<open>LCD_ROWS * LCD_COLS\<close> characters \<open>lcd_show_wrapped\<close> returns, having
  changed nothing but the log. To the log it appends, for each row \<open>r\<close> from 0 to
  \<open>LCD_ROWS - 1\<close> in order, the frames of the set-cursor command \<open>0x80\<close> OR'd with the
  base address of row \<open>r\<close>, then the data frames of the \<open>LCD_COLS\<close> characters of the
  string from \<open>r * LCD_COLS\<close> on. The chunks of the rows together are the whole string.
\<close>

theorem lcd_show_wrapped_full:
  assumes "backlight st = 0 \<or> backlight st = P_CF_BL"
    and "g = i2c_h \<and> base = [0x00, 0x40] \<or> g = lcd_20x4 \<and> base = [0x00, 0x40, 0x14, 0x54]"
    and "\<forall>k < LCD_ROWS g * LCD_COLS g. s k \<noteq> 0" and "s (LCD_ROWS g * LCD_COLS g) = 0"
  shows "lcd_show_wrapped g s tmp st =
     Some (st\<lparr>hal_log := hal_log st @
       concat (map (\<lambda>r. cmd_frames st (0x80 OR base ! r)
                        @ concat (map (data_frames st)
                            (map s [r * LCD_COLS g ..< r * LCD_COLS g + LCD_COLS g])))
                [0 ..< LCD_ROWS g])\<rparr>)
   \<and> concat (map (\<lambda>r. map s [r * LCD_COLS g ..< r * LCD_COLS g + LCD_COLS g])
               [0 ..< LCD_ROWS g]) = map s [0 ..< LCD_ROWS g * LCD_COLS g]"
proof -
  have ok: "backlight_ok st"
    using assms(1) by (simp add: backlight_ok_def)
  have cols: "0 < LCD_COLS g"
    using assms(2) by (auto simp: i2c_h_def lcd_20x4_def)
  define chunk where "chunk r = map s [r * LCD_COLS g ..< r * LCD_COLS g + LCD_COLS g]" for r
  define L where
    "L st' r = cmd_frames st' (0x80 OR base ! r) @ concat (map (data_frames st') (chunk r))"
    for st' :: lcd_state and r
  have row: "fold lcd_send_data (chunk r) (lcd_put_cur g (word_of_nat r) 0 st') =
      st'\<lparr>hal_log := hal_log st' @ L st' r\<rparr>"
    if "r \<in> set [0 ..< LCD_ROWS g]" and "backlight_ok st'" for r st'
  proof -
    have r: "r < LCD_ROWS g" using that(1) by simp
    show ?thesis
      unfolding lcd_put_cur_row_start [OF that(2) assms(2) r] L_def
      using that(2) by (simp add: fold_send_data_log)
  qed
  have "lcd_show_wrapped g s tmp st =
      Some (fold (\<lambda>r st. fold lcd_send_data (chunk r) (lcd_put_cur g (word_of_nat r) 0 st))
              [0 ..< LCD_ROWS g] st)"
    unfolding chunk_def by (rule lcd_show_wrapped_full_calls [OF cols assms(3,4)])
  also have "fold (\<lambda>r st. fold lcd_send_data (chunk r) (lcd_put_cur g (word_of_nat r) 0 st))
              [0 ..< LCD_ROWS g] st =
      st\<lparr>hal_log := hal_log st @ concat (map (L st) [0 ..< LCD_ROWS g])\<rparr>"
    using row ok by (intro fold_log) (simp_all add: L_def)
  finally show ?thesis
    unfolding L_def chunk_def using concat_chunks [of s "LCD_COLS g" "LCD_ROWS g"] by simp
qed

text \<open>
  C8. Under the invariant of the backlight flag, on a string of \<open>n < LCD_COLS\<close>
  characters \<open>lcd_show_wrapped\<close> returns, having changed nothing but the log. To the log
  it appends the frames of the set-cursor command \<open>0x80\<close> (row 0, column 0), then the
  data frames of the \<open>n\<close> characters, and nothing after them.
\<close>

theorem lcd_show_wrapped_short:
  assumes "backlight st = 0 \<or> backlight st = P_CF_BL"
    and "0 < LCD_ROWS g" and "n < LCD_COLS g"
    and "\<forall>k<n. s k \<noteq> 0" and "s n = 0"
  shows "lcd_show_wrapped g s tmp st =
     Some (st\<lparr>hal_log := hal_log st @ cmd_frames st 0x80
                   @ concat (map (data_frames st) (map s [0 ..< n]))\<rparr>)"
proof -
  have ok: "backlight_ok st"
    using assms(1) by (simp add: backlight_ok_def)
  have cols: "0 < LCD_COLS g"
    using assms(3) by simp
  show ?thesis
    unfolding lcd_show_wrapped_short_calls [OF assms(2-5)]
      lcd_put_cur_origin [OF ok assms(2) cols]
    using ok by (simp add: fold_send_data_log)
qed

theorem lcd_show_wrapped_short_witness:
  "((backlight lcd_reset = 0 \<or> backlight lcd_reset = P_CF_BL)
    \<and> 0 < LCD_ROWS i2c_h \<and> (2::nat) < LCD_COLS i2c_h
    \<and> (\<lambda>k. if k = 0 then 0x48 else if k = 1 then 0x69 else 0 :: 8 word) (2::nat) = 0)
   \<and> lcd_show_wrapped i2c_h (\<lambda>k. if k = 0 then 0x48 else if k = 1 then 0x69 else 0)
        (\<lambda>k. 0) lcd_reset =
       Some (lcd_reset\<lparr>hal_log :=
         [I2C_Tx 0 0x4E 0x88, I2C_Tx 0 0x4E 0x8C, Delay_ms 1, I2C_Tx 0 0x4E 0x88, Delay_ms 1,
          I2C_Tx 0 0x4E 0x08, I2C_Tx 0 0x4E 0x0C, Delay_ms 1, I2C_Tx 0 0x4E 0x08, Delay_ms 1,
          Delay_ms 2,
          I2C_Tx 0 0x4E 0x49, I2C_Tx 0 0x4E 0x4D, Delay_ms 1, I2C_Tx 0 0x4E 0x49, Delay_ms 1,
          I2C_Tx 0 0x4E 0x89, I2C_Tx 0 0x4E 0x8D, Delay_ms 1, I2C_Tx 0 0x4E 0x89, Delay_ms 1,
          Delay_ms 1,
          I2C_Tx 0 0x4E 0x69, I2C_Tx 0 0x4E 0x6D, Delay_ms 1, I2C_Tx 0 0x4E 0x69, Delay_ms 1,
          I2C_Tx 0 0x4E 0x99, I2C_Tx 0 0x4E 0x9D, Delay_ms 1, I2C_Tx 0 0x4E 0x99, Delay_ms 1,
          Delay_ms 1]\<rparr>)"
proof -
  define s :: mem where "s = (\<lambda>k. if k = 0 then 0x48 else if k = 1 then 0x69 else 0)"
  have h: "backlight lcd_reset = 0 \<or> backlight lcd_reset = P_CF_BL"
    "0 < LCD_ROWS i2c_h" "(2::nat) < LCD_COLS i2c_h" "\<forall>k<2. s k \<noteq> 0" "s 2 = 0"
    by (simp_all add: i2c_h_def lcd_reset_def s_def)
  have m: "map s [0..<2] = [0x48, 0x69]"
    by (simp add: numeral_2_eq_2 s_def)
  have "lcd_show_wrapped i2c_h s (\<lambda>k. 0) lcd_reset =
      Some (lcd_reset\<lparr>hal_log := hal_log lcd_reset @ cmd_frames lcd_reset 0x80
                   @ concat (map (data_frames lcd_reset) [0x48, 0x69])\<rparr>)"
    using lcd_show_wrapped_short [OF h, of "\<lambda>k. 0"] unfolding m .
  moreover have "hal_log (lcd_send_data 0x69 (lcd_send_data 0x48
      (lcd_put_cur i2c_h 0 0 lcd_reset))) =
         [I2C_Tx 0 0x4E 0x88, I2C_Tx 0 0x4E 0x8C, Delay_ms 1, I2C_Tx 0 0x4E 0x88, Delay_ms 1,
          I2C_Tx 0 0x4E 0x08, I2C_Tx 0 0x4E 0x0C, Delay_ms 1, I2C_Tx 0 0x4E 0x08, Delay_ms 1,
          Delay_ms 2,
          I2C_Tx 0 0x4E 0x49, I2C_Tx 0 0x4E 0x4D, Delay_ms 1, I2C_Tx 0 0x4E 0x49, Delay_ms 1,
          I2C_Tx 0 0x4E 0x89, I2C_Tx 0 0x4E 0x8D, Delay_ms 1, I2C_Tx 0 0x4E 0x89, Delay_ms 1,
          Delay_ms 1,
          I2C_Tx 0 0x4E 0x69, I2C_Tx 0 0x4E 0x6D, Delay_ms 1, I2C_Tx 0 0x4E 0x69, Delay_ms 1,
          I2C_Tx 0 0x4E 0x99, I2C_Tx 0 0x4E 0x9D, Delay_ms 1, I2C_Tx 0 0x4E 0x99, Delay_ms 1,
          Delay_ms 1]"
    by (simp add: lcd_put_cur_def i2c_h_def lcd_reset_def lcd_low_level_defs)
  ultimately show ?thesis
    using h(1-3,5) unfolding s_def
    by (simp add: cmd_frames_def data_frames_def nibble_transfer_def tx_event_def lcd_reset_def
        P_CF_EN_def P_CF_BL_def P_CF_RS_def)
qed

theorem lcd_show_wrapped_full_witness:
  "((backlight lcd_reset = 0 \<or> backlight lcd_reset = P_CF_BL)
    \<and> (\<lambda>k. if k < 32 then 0x41 else 0 :: 8 word) (LCD_ROWS i2c_h * LCD_COLS i2c_h) = 0)
   \<and> lcd_show_wrapped i2c_h (\<lambda>k. if k < 32 then 0x41 else 0) (\<lambda>k. 0) lcd_reset =
       Some (lcd_reset\<lparr>hal_log :=
         cmd_frames lcd_reset 0x80 @ concat (replicate 16 (data_frames lcd_reset 0x41))
         @ cmd_frames lcd_reset 0xC0 @ concat (replicate 16 (data_frames lcd_reset 0x41))\<rparr>)
   \<and> expander_bytes (cmd_frames lcd_reset 0x80) = [0x88, 0x8C, 0x88, 0x08, 0x0C, 0x08]
   \<and> expander_bytes (cmd_frames lcd_reset 0xC0) = [0xC8, 0xCC, 0xC8, 0x08, 0x0C, 0x08]
   \<and> expander_bytes (data_frames lcd_reset 0x41) = [0x49, 0x4D, 0x49, 0x19, 0x1D, 0x19]"
proof -
  define s :: mem where "s = (\<lambda>k. if k < 32 then 0x41 else 0)"
  have h: "backlight lcd_reset = 0 \<or> backlight lcd_reset = P_CF_BL"
    "i2c_h = i2c_h \<and> [0x00, 0x40] = [0x00, 0x40 :: 8 word] \<or>
     i2c_h = lcd_20x4 \<and> [0x00, 0x40] = [0x00, 0x40, 0x14, 0x54 :: 8 word]"
    "\<forall>k < LCD_ROWS i2c_h * LCD_COLS i2c_h. s k \<noteq> 0"
    "s (LCD_ROWS i2c_h * LCD_COLS i2c_h) = 0"
    by (simp_all add: i2c_h_def lcd_reset_def s_def)
  have c: "map s [a ..< a + 16] = replicate 16 0x41" if "a \<le> 16" for a :: nat
    using that by (intro replicate_eqI) (auto simp: s_def)
  have r: "[0 ..< LCD_ROWS i2c_h] = [0, 1]" and cols: "LCD_COLS i2c_h = 16"
    by (simp_all add: i2c_h_def numeral_2_eq_2)
  have c0: "map s [0 * 16 ..< 0 * 16 + 16] = replicate 16 0x41"
    and c1: "map s [1 * 16 ..< 1 * 16 + 16] = replicate 16 0x41"
    using c [of 0] c [of 16] by simp_all
  have step: "concat (map G [0, 1 :: nat]) = G 0 @ G 1" for G :: "nat \<Rightarrow> hal_event list"
    by simp
  have n: "(0x80 :: 8 word) OR [0x00, 0x40] ! 0 = 0x80"
    "(0x80 :: 8 word) OR [0x00, 0x40] ! 1 = 0xC0"
    by simp_all
  have d: "map (data_frames lcd_reset) (replicate 16 0x41) =
      replicate 16 (data_frames lcd_reset 0x41)"
    by (rule map_replicate)
  have e: "hal_log lcd_reset = []"
    by (simp add: lcd_reset_def)
  have "lcd_show_wrapped i2c_h s (\<lambda>k. 0) lcd_reset =
      Some (lcd_reset\<lparr>hal_log := hal_log lcd_reset @
       concat (map (\<lambda>r. cmd_frames lcd_reset (0x80 OR [0x00, 0x40] ! r)
                        @ concat (map (data_frames lcd_reset) (map s [r * 16 ..< r * 16 + 16])))
                [0, 1])\<rparr>)"
    using lcd_show_wrapped_full [OF h, of "\<lambda>k. 0"] unfolding r cols by (rule conjunct1)
  also have "\<dots> = Some (lcd_reset\<lparr>hal_log :=
         cmd_frames lcd_reset 0x80 @ concat (replicate 16 (data_frames lcd_reset 0x41))
         @ cmd_frames lcd_reset 0xC0 @ concat (replicate 16 (data_frames lcd_reset 0x41))\<rparr>)"
    unfolding step c0 c1 n d e by (simp only: append_Nil append_assoc)
  finally have 1: "lcd_show_wrapped i2c_h s (\<lambda>k. 0) lcd_reset =
      Some (lcd_reset\<lparr>hal_log :=
         cmd_frames lcd_reset 0x80 @ concat (replicate 16 (data_frames lcd_reset 0x41))
         @ cmd_frames lcd_reset 0xC0 @ concat (replicate 16 (data_frames lcd_reset 0x41))\<rparr>)" .
  have 2: "expander_bytes (cmd_frames lcd_reset 0x80) = [0x88, 0x8C, 0x88, 0x08, 0x0C, 0x08]"
    "expander_bytes (cmd_frames lcd_reset 0xC0) = [0xC8, 0xCC, 0xC8, 0x08, 0x0C, 0x08]"
    "expander_bytes (data_frames lcd_reset 0x41) = [0x49, 0x4D, 0x49, 0x19, 0x1D, 0x19]"
    by (simp_all add: expander_bytes_frames lcd_reset_def P_CF_EN_def P_CF_BL_def P_CF_RS_def)
  have run: "expander_bytes (hal_log (lcd_put_cur i2c_h 1 0 lcd_reset)) =
      [0xC8, 0xCC, 0xC8, 0x08, 0x0C, 0x08]"
    "expander_bytes (hal_log (lcd_send_data 0x41 lcd_reset)) =
      [0x49, 0x4D, 0x49, 0x19, 0x1D, 0x19]"
    by (simp_all add: lcd_put_cur_def i2c_h_def lcd_reset_def lcd_low_level_defs)
  show ?thesis
    using 1 2 run h(1,4) unfolding s_def by blast
qed

section \<open>The LCD driver: the backlight flag\<close>

lemma bl_frame_refl: "bl_frame st st"
  by (simp add: bl_frame_def)

lemma bl_frame_trans: "bl_frame st st' \<Longrightarrow> bl_frame st' st'' \<Longrightarrow> bl_frame st st''"
  unfolding bl_frame_def by (auto simp: expander_bytes_append)

lemma bl_frame_ok: "bl_frame st st' \<Longrightarrow> backlight_ok st \<Longrightarrow> backlight_ok st'"
  by (simp add: bl_frame_def backlight_ok_def)

lemma bl_frame_HAL_Delay: "bl_frame st (HAL_Delay n st)"
  by (simp add: bl_frame_def)

lemma frame_backlight:
  fixes x bl :: "8 word"
  assumes "bl = 0 \<or> bl = P_CF_BL" and "ctrl = 0 \<or> ctrl = P_CF_RS"
  shows "(push_bit 4 x OR ctrl OR bl) AND P_CF_BL = bl"
    and "((push_bit 4 x OR ctrl OR bl) OR P_CF_EN) AND P_CF_BL = bl"
  using assms
  by (auto intro!: bit_eqI simp: bit_num bit_P_CF split: nat.splits dest: bit_imp_le_length)

lemma bl_frame_write_nibble:
  assumes "backlight_ok st" and "ctrl = 0 \<or> ctrl = P_CF_RS"
  shows "bl_frame st (lcd_write_nibble n ctrl st)"
proof -
  have bl: "backlight st = 0 \<or> backlight st = P_CF_BL"
    using assms(1) by (simp add: backlight_ok_def)
  show ?thesis
    unfolding lcd_write_nibble_transfer [OF assms] bl_frame_def
    by (simp add: nibble_transfer_def tx_event_def frame_backlight [OF bl assms(2)])
qed

lemma bl_frame_send:
  assumes "backlight_ok st"
  shows "bl_frame st (lcd_send_cmd c st)" and "bl_frame st (lcd_send_data c st)"
proof -
  note ok = bl_frame_ok [OF _ assms]
  have n1: "bl_frame st (lcd_write_nibble a ctrl st)" if "ctrl = 0 \<or> ctrl = P_CF_RS"
    for a ctrl using assms that by (rule bl_frame_write_nibble)
  have n2: "bl_frame st (lcd_write_nibble b ctrl (lcd_write_nibble a ctrl st))"
    if "ctrl = 0 \<or> ctrl = P_CF_RS" for a b ctrl
    using n1 [OF that] bl_frame_write_nibble [OF ok [OF n1 [OF that]] that]
    by (rule bl_frame_trans)
  show "bl_frame st (lcd_send_cmd c st)"
    unfolding lcd_send_cmd_def Let_def
    by (rule bl_frame_trans [OF n2 bl_frame_HAL_Delay]) simp
  show "bl_frame st (lcd_send_data c st)"
    unfolding lcd_send_data_def Let_def
    by (rule bl_frame_trans [OF n2 bl_frame_HAL_Delay]) simp
qed

lemma bl_frame_put_cur: "backlight_ok st \<Longrightarrow> bl_frame st (lcd_put_cur g row col st)"
  unfolding lcd_put_cur_def Let_def by (rule bl_frame_send(1))

lemma bl_frame_clear: "backlight_ok st \<Longrightarrow> bl_frame st (lcd_clear st)"
  unfolding lcd_clear_def Let_def
  by (rule bl_frame_trans [OF bl_frame_send(1) bl_frame_HAL_Delay])

lemma bl_frame_send_string:
  assumes "lcd_send_string str st = Some st'" and "backlight_ok st"
  shows "bl_frame st st'"
  using assms
proof (induction str st st' rule: lcd_send_string.raw_induct [rotated, consumes 1])
  case (1 send str st st')
  show ?case
  proof (cases "str 0 = 0")
    case True
    then show ?thesis using 1(2) by (simp add: bl_frame_refl)
  next
    case False
    have f: "bl_frame st (lcd_send_data (str 0) st)"
      using 1(3) by (rule bl_frame_send(2))
    from False 1(2) have "send (\<lambda>k. str (Suc k)) (lcd_send_data (str 0) st) = Some st'"
      by simp
    then have "bl_frame (lcd_send_data (str 0) st) st'"
      using bl_frame_ok [OF f 1(3)] by (rule 1(1))
    with f show ?thesis by (rule bl_frame_trans)
  qed
qed


text \<open>One positioning and one string, the body that the three helpers share.\<close>

lemma bl_frame_row:
  assumes "lcd_send_string buf (lcd_put_cur g row col st) = Some st'" and "backlight_ok st"
  shows "bl_frame st st'"
proof -
  have p: "bl_frame st (lcd_put_cur g row col st)"
    using assms(2) by (rule bl_frame_put_cur)
  from assms(1) bl_frame_ok [OF p assms(2)] have "bl_frame (lcd_put_cur g row col st) st'"
    by (rule bl_frame_send_string)
  with p show ?thesis by (rule bl_frame_trans)
qed

lemma bl_frame_ascii_rows:
  "ascii_rows g r buf st = Some st' \<Longrightarrow> backlight_ok st \<Longrightarrow> bl_frame st st'"
proof (induction "LCD_ROWS g - r" arbitrary: r buf st)
  case 0
  then show ?case by (subst (asm) ascii_rows.simps) (simp add: bl_frame_refl)
next
  case (Suc d)
  then have lt: "r < LCD_ROWS g" by simp
  from Suc.prems(1) lt obtain buf' st1 where
    s1: "lcd_send_string buf' (lcd_put_cur g (word_of_nat r) 0 st) = Some st1"
    and s2: "ascii_rows g (Suc r) buf' st1 = Some st'"
    by (subst (asm) ascii_rows.simps) (auto simp: Let_def split: bind_splits if_splits)
  have f1: "bl_frame st st1" using s1 Suc.prems(2) by (rule bl_frame_row)
  have "bl_frame st1 st'"
    using Suc.hyps(2) s2 bl_frame_ok [OF f1 Suc.prems(2)] by (intro Suc.hyps(1)) simp_all
  with f1 show ?case by (rule bl_frame_trans)
qed

lemma bl_frame_wrapped_rows:
  "wrapped_rows g s r tmp st = Some st' \<Longrightarrow> backlight_ok st \<Longrightarrow> bl_frame st st'"
proof (induction "LCD_ROWS g - r" arbitrary: r tmp st)
  case 0
  then show ?case by (subst (asm) wrapped_rows.simps) (simp add: bl_frame_refl)
next
  case (Suc d)
  then have lt: "r < LCD_ROWS g" by simp
  from Suc.prems(1) lt obtain tmp' st1 where
    s1: "lcd_send_string tmp' (lcd_put_cur g (word_of_nat r) 0 st) = Some st1"
    and s2: "st' = st1 \<or> wrapped_rows g s (Suc r) tmp' st1 = Some st'"
    by (subst (asm) wrapped_rows.simps)
      (auto simp: Let_def split: bind_splits if_splits prod.splits)
  have f1: "bl_frame st st1" using s1 Suc.prems(2) by (rule bl_frame_row)
  from s2 have "bl_frame st1 st'"
  proof
    assume "st' = st1"
    then show ?thesis by (simp add: bl_frame_refl)
  next
    assume "wrapped_rows g s (Suc r) tmp' st1 = Some st'"
    then show ?thesis
      using Suc.hyps(2) bl_frame_ok [OF f1 Suc.prems(2)] by (intro Suc.hyps(1)) simp_all
  qed
  with f1 show ?case by (rule bl_frame_trans)
qed

lemma bl_frame_scroll_steps:
  "scroll_steps g row text delay_ms len start buf st = Some st' \<Longrightarrow> backlight_ok st \<Longrightarrow>
   bl_frame st st'"
proof (induction "Suc (len - LCD_COLS g) - start" arbitrary: start buf st)
  case 0
  then have "\<not> int start \<le> int len - int (LCD_COLS g)" by linarith
  then show ?case using "0.prems"(1)
    by (subst (asm) scroll_steps.simps) (simp add: bl_frame_refl)
next
  case (Suc d)
  show ?case
  proof (cases "int start \<le> int len - int (LCD_COLS g)")
    case False
    then show ?thesis using Suc.prems(1)
      by (subst (asm) scroll_steps.simps) (simp add: bl_frame_refl)
  next
    case True
    with Suc.prems(1) obtain buf' st1 where
      s1: "lcd_send_string buf' (lcd_put_cur g row 0 st) = Some st1"
      and s2: "scroll_steps g row text delay_ms len (Suc start) buf'
                 (HAL_Delay (unat delay_ms) st1) = Some st'"
      by (subst (asm) scroll_steps.simps) (auto simp: Let_def split: bind_splits)
    have f1: "bl_frame st st1" using s1 Suc.prems(2) by (rule bl_frame_row)
    have f2: "bl_frame st (HAL_Delay (unat delay_ms) st1)"
      using f1 bl_frame_HAL_Delay by (rule bl_frame_trans)
    have "bl_frame (HAL_Delay (unat delay_ms) st1) st'"
      using Suc.hyps(2) s2 bl_frame_ok [OF f2 Suc.prems(2)] by (intro Suc.hyps(1)) simp_all
    with f2 show ?thesis by (rule bl_frame_trans)
  qed
qed

lemma bl_frame_scroll_line:
  assumes "lcd_scroll_line g row text delay_ms buf st = Some st'" and "backlight_ok st"
  shows "bl_frame st st'"
  using assms
  by (auto simp: lcd_scroll_line_def split: bind_splits if_splits
      intro: bl_frame_row bl_frame_scroll_steps)


lemma bl_frame_init:
  "bl_frame (st\<lparr>hi2c_lcd := h, lcd_addr := a AND 0x7F, backlight := P_CF_BL\<rparr>)
     (lcd_init g h a st)"
proof -
  define st0 where "st0 = st\<lparr>hi2c_lcd := h, lcd_addr := a AND 0x7F, backlight := P_CF_BL\<rparr>"
  have ok: "backlight_ok st0"
    by (simp add: st0_def backlight_ok_def)
  have d: "bl_frame st0 (HAL_Delay n st1)" if "bl_frame st0 st1" for n st1
    using that bl_frame_HAL_Delay by (rule bl_frame_trans)
  have n: "bl_frame st0 (lcd_write_nibble x 0 st1)" if "bl_frame st0 st1" for x st1
    using that bl_frame_write_nibble [OF bl_frame_ok [OF that ok]] by (rule bl_frame_trans) simp
  have c: "bl_frame st0 (lcd_send_cmd x st1)" if "bl_frame st0 st1" for x st1
    using that bl_frame_send(1) [OF bl_frame_ok [OF that ok]] by (rule bl_frame_trans)
  show ?thesis
    unfolding lcd_init_def Let_def st0_def [symmetric]
    by (intro d n c bl_frame_refl)
qed

lemma emitted_append: "hal_log st' = hal_log st @ es \<Longrightarrow> emitted st st' = es"
  by (simp add: emitted_def)

lemma bl_frame_emitted:
  fixes st :: lcd_state
  assumes "bl_frame st0 st'" and "hal_log st0 = hal_log st"
  shows "take (length (hal_log st)) (hal_log st') = hal_log st"
    and "\<forall>b \<in> set (expander_bytes (emitted st st')). b AND P_CF_BL = backlight st'"
    and "backlight st' = backlight st0"
  using assms by (auto simp: bl_frame_def emitted_def)

lemma backlight_switch:
  "lcd_backlight_on st = st\<lparr>backlight := P_CF_BL, hal_log := hal_log st @ [tx_event st P_CF_BL]\<rparr>"
  "lcd_backlight_off st = st\<lparr>backlight := 0, hal_log := hal_log st @ [tx_event st 0]\<rparr>"
  by (simp_all add: lcd_backlight_on_def lcd_backlight_off_def Let_def pcf_write_def tx_event_def)

text \<open>
  C10. The backlight flag is \<open>P_CF_BL\<close> in the initial state, and every public operation
  that returns keeps it one of \<open>0\<close> and \<open>P_CF_BL\<close>. Every byte the operation sends to the
  expander, in a nibble transfer or otherwise, has on its backlight bit the value of the
  flag, and only \<open>lcd_init\<close>, \<open>lcd_backlight_on\<close> and \<open>lcd_backlight_off\<close> change the flag
  (they set it before they send anything).
\<close>

theorem backlight_flag_invariant:
  assumes "backlight_ok st" and "lcd_call g op st = Some st'"
  shows "backlight_ok lcd_reset \<and> backlight_ok st'
       \<and> take (length (hal_log st)) (hal_log st') = hal_log st
       \<and> (\<forall>b \<in> set (expander_bytes (emitted st st')). b AND P_CF_BL = backlight st')
       \<and> (\<not> sets_backlight op \<longrightarrow> backlight st' = backlight st)"
proof -
  have base: "backlight_ok lcd_reset"
    by (simp add: backlight_ok_def lcd_reset_def)
  have framed: ?thesis if "bl_frame st st'"
    using bl_frame_emitted [OF that refl] bl_frame_ok [OF that assms(1)] base by simp
  show ?thesis
  proof (cases op)
    case (Init h a)
    then have "bl_frame (st\<lparr>hi2c_lcd := h, lcd_addr := a AND 0x7F, backlight := P_CF_BL\<rparr>) st'"
      using assms(2) bl_frame_init [where st = st and h = h and a = a and g = g] by simp
    from bl_frame_emitted [OF this, where st = st] show ?thesis
      using base Init by (simp add: backlight_ok_def)
  next
    case Clear
    then show ?thesis using assms bl_frame_clear [where st = st] by (intro framed) auto
  next
    case (Put_cur row col)
    then show ?thesis using assms bl_frame_put_cur [where st = st and g = g and row = row and col = col]
      by (intro framed) auto
  next
    case (Send_string str)
    then show ?thesis using assms by (intro framed bl_frame_send_string [where str = str]) auto
  next
    case Backlight_on
    then have "st' = lcd_backlight_on st" using assms(2) by simp
    then show ?thesis
      using base Backlight_on by (simp add: backlight_switch backlight_ok_def emitted_def tx_event_def)
  next
    case Backlight_off
    then have "st' = lcd_backlight_off st" using assms(2) by simp
    then show ?thesis
      using base Backlight_off by (simp add: backlight_switch backlight_ok_def emitted_def tx_event_def)
  next
    case (Ascii_test buf)
    then show ?thesis using assms
      by (intro framed bl_frame_ascii_rows [where g = g and r = 0 and buf = buf])
        (auto simp: lcd_ascii_test_def)
  next
    case (Show_wrapped s tmp)
    then show ?thesis using assms
      by (intro framed bl_frame_wrapped_rows [where g = g and s = s and r = 0 and tmp = tmp])
        (auto simp: lcd_show_wrapped_def)
  next
    case (Scroll_line row str delay_ms buf)
    then show ?thesis using assms
      by (intro framed bl_frame_scroll_line [of g row str delay_ms buf]) auto
  qed
qed

theorem backlight_flag_invariant_witness:
  "(backlight_ok (lcd_backlight_off lcd_reset)
    \<and> lcd_call i2c_h (Put_cur 1 5) (lcd_backlight_off lcd_reset) =
        Some (lcd_put_cur i2c_h 1 5 (lcd_backlight_off lcd_reset)))
   \<and> backlight (lcd_put_cur i2c_h 1 5 (lcd_backlight_off lcd_reset)) = 0
   \<and> expander_bytes (emitted (lcd_backlight_off lcd_reset)
        (lcd_put_cur i2c_h 1 5 (lcd_backlight_off lcd_reset))) =
        [0xC0, 0xC4, 0xC0, 0x50, 0x54, 0x50]"
proof -
  have h: "backlight_ok (lcd_backlight_off lcd_reset)"
    "lcd_call i2c_h (Put_cur 1 5) (lcd_backlight_off lcd_reset) =
        Some (lcd_put_cur i2c_h 1 5 (lcd_backlight_off lcd_reset))"
    by (simp_all add: backlight_ok_def backlight_switch)
  have "lcd_put_cur i2c_h 1 5 (lcd_backlight_off lcd_reset) =
      lcd_send_cmd 0xC5 (lcd_backlight_off lcd_reset)"
    by (simp add: lcd_put_cur_def i2c_h_def Let_def)
  then show ?thesis
    using h backlight_flag_invariant [OF h]
    by (simp add: lcd_send_eq emitted_def nibble_transfer_def tx_event_def backlight_switch
        P_CF_EN_def)
qed

section \<open>The LED driver\<close>

lemma nop_loop_count: "nop_loop cycles n = n + unat cycles"
proof (induction cycles n rule: nop_loop.induct)
  case (1 cycles n)
  show ?case
  proof (cases "cycles = 0")
    case True
    then show ?thesis by (subst nop_loop.simps) simp
  next
    case False
    then have "0 < unat cycles" by (simp add: unat_gt_0)
    then show ?thesis
      using False "1.IH" by (subst nop_loop.simps) (simp add: unat_minus_one)
  qed
qed

lemma ws_sel [simp]:
  "SystemCoreClock (ws2812b_delay ns st) = SystemCoreClock st"
  "primask (ws2812b_delay ns st) = primask st"
  "hal_log (ws2812b_delay ns st) =
     hal_log st @ [Nop_loop ns (unat (NS_TO_CYCLES (SystemCoreClock st) ns div 2))]"
  "SystemCoreClock (HAL_GPIO_WritePin v st) = SystemCoreClock st"
  "primask (HAL_GPIO_WritePin v st) = primask st"
  "hal_log (HAL_GPIO_WritePin v st) = hal_log st @ [GPIO_Write v]"
  by (simp_all add: ws2812b_delay_def HAL_GPIO_WritePin_def Let_def nop_loop_count)

lemma test_bit: "(b :: 8 word) AND push_bit k 1 \<noteq> 0 \<longleftrightarrow> bit b k"
  by (simp add: bit_iff_and_push_bit_not_eq_0)

lemma ws2812b_bits_log:
  "ws2812b_bits b n st =
     st\<lparr>hal_log := hal_log st @
       concat (map (\<lambda>k. bit_pulse (SystemCoreClock st) (bit b k)) (rev [0 ..< n]))\<rparr>"
proof (induction n arbitrary: st)
  case 0
  show ?case by simp
next
  case (Suc n)
  show ?case
    by (simp add: Suc test_bit Let_def bit_pulse_def ws2812b_delay_def HAL_GPIO_WritePin_def
        nop_loop_count del: push_bit_of_1)
qed

lemma rev_upt_8: "rev [0 ..< 8] = [7, 6, 5, 4, 3, 2, 1, 0 :: nat]"
  by (simp add: eval_nat_numeral)

lemma ws2812b_byte_log:
  "ws2812b_bits b 8 st = st\<lparr>hal_log := hal_log st @ byte_pulses (SystemCoreClock st) b\<rparr>"
  unfolding ws2812b_bits_log byte_pulses_def rev_upt_8 by (rule refl)


lemma ws2812b_bytes_unfold:
  "ws2812b_bytes led_buffer led_count i st =
     (if uint i < uint led_count * 3 then
        ws2812b_bytes led_buffer led_count (i + 1)
          (st\<lparr>hal_log := hal_log st @ byte_pulses (SystemCoreClock st) (led_buffer (unat i))\<rparr>)
      else Some st)"
  by (subst ws2812b_bytes.simps) (simp add: Let_def ws2812b_byte_log)

lemma unat16: "i < 65536 \<Longrightarrow> unat (word_of_nat i :: 16 word) = i"
  by (simp add: unat_of_nat)

lemma ws2812b_bytes_run:
  assumes "unat led_count * 3 < 65536" and "i \<le> unat led_count * 3"
  shows "ws2812b_bytes led_buffer led_count (word_of_nat i) st =
     Some (st\<lparr>hal_log := hal_log st @
       concat (map (\<lambda>j. byte_pulses (SystemCoreClock st) (led_buffer j))
                [i ..< unat led_count * 3])\<rparr>)"
  using assms(2)
proof (induction "unat led_count * 3 - i" arbitrary: i st)
  case 0
  then have "i = unat led_count * 3" by simp
  then have "\<not> uint (word_of_nat i :: 16 word) < uint led_count * 3"
    using assms(1) unat16 [of i] unfolding uint_nat by simp
  then show ?case using 0 by (subst ws2812b_bytes_unfold) simp
next
  case (Suc d)
  then have lt: "i < unat led_count * 3" by simp
  then have i: "unat (word_of_nat i :: 16 word) = i"
    using assms(1) by (intro unat16) simp
  have c: "uint (word_of_nat i :: 16 word) < uint led_count * 3"
    using lt i unfolding uint_nat by linarith
  have u: "[i ..< unat led_count * 3] = i # [Suc i ..< unat led_count * 3]"
    using lt by (simp add: upt_conv_Cons)
  have n: "word_of_nat i + 1 = (word_of_nat (Suc i) :: 16 word)"
    by simp
  define st1 where
    "st1 = st\<lparr>hal_log := hal_log st @ byte_pulses (SystemCoreClock st) (led_buffer i)\<rparr>"
  have "ws2812b_bytes led_buffer led_count (word_of_nat (Suc i)) st1 =
     Some (st1\<lparr>hal_log := hal_log st1 @
       concat (map (\<lambda>j. byte_pulses (SystemCoreClock st1) (led_buffer j))
                [Suc i ..< unat led_count * 3])\<rparr>)"
    using Suc.hyps(2) lt by (intro Suc.hyps(1)) simp_all
  then show ?case
    unfolding ws2812b_bytes_unfold [of led_buffer led_count "word_of_nat i"] if_P [OF c] i n u
      st1_def [symmetric]
    by (simp add: st1_def)
qed

lemma ws2812b_bytes_diverges:
  assumes "65536 \<le> unat led_count * 3"
  shows "ws2812b_bytes led_buffer led_count i st = None"
proof -
  have "False" if "ws2812b_bytes led_buffer led_count i st = Some st'" for st'
    using that assms
  proof (induction led_buffer led_count i st st'
      rule: ws2812b_bytes.raw_induct [rotated, consumes 1])
    case (1 bytes led_buffer led_count i st st')
    have "unat i < 65536"
      using unsigned_less [of i, where 'a = nat] by simp
    then have "uint i < uint led_count * 3"
      using 1(3) unfolding uint_nat by linarith
    then have "bytes led_buffer led_count (i + 1)
        (let cur_byte = led_buffer (unat i) in ws2812b_bits cur_byte 8 st) = Some st'"
      using 1(2) by simp
    then show ?case using 1(3) by (rule 1(1))
  qed
  then show ?thesis by (cases "ws2812b_bytes led_buffer led_count i st") auto
qed


lemma ws2812b_send_returns:
  assumes "unat led_count * 3 < 65536"
  shows "ws2812b_send led_buffer led_count st =
     Some (st\<lparr>hal_log := hal_log st @ [Irq_disable]
                   @ transmission (SystemCoreClock st) led_buffer led_count
                   @ (if primask st then [] else [Irq_enable])\<rparr>)"
proof -
  have "ws2812b_bytes led_buffer led_count 0 (disable_irq st) =
      Some ((disable_irq st)\<lparr>hal_log := hal_log (disable_irq st) @
        concat (map (\<lambda>j. byte_pulses (SystemCoreClock (disable_irq st)) (led_buffer j))
                 [0 ..< unat led_count * 3])\<rparr>)"
    using ws2812b_bytes_run [OF assms, of 0 led_buffer "disable_irq st"] by simp
  then show ?thesis
    by (cases "primask st")
      (simp_all add: ws2812b_send_def Let_def disable_irq_def enable_irq_def
        HAL_GPIO_WritePin_def HAL_Delay_def transmission_def)
qed

lemma ws2812b_send_diverges:
  assumes "65536 \<le> unat led_count * 3"
  shows "ws2812b_send led_buffer led_count st = None"
  by (simp add: ws2812b_send_def Let_def ws2812b_bytes_diverges [OF assms])


lemma no_irq_in_bit_pulse:
  "Irq_disable \<notin> set (bit_pulse clk v)" "Irq_enable \<notin> set (bit_pulse clk v)"
  by (simp_all add: bit_pulse_def)

lemma no_irq_in_byte_pulses:
  "Irq_disable \<notin> set (byte_pulses clk b)" "Irq_enable \<notin> set (byte_pulses clk b)"
  unfolding byte_pulses_def by (simp_all add: no_irq_in_bit_pulse)

lemma no_irq_in_transmission:
  "Irq_disable \<notin> set (transmission clk led_buffer led_count)"
  "Irq_enable \<notin> set (transmission clk led_buffer led_count)"
  unfolding transmission_def by (simp_all add: no_irq_in_byte_pulses)

lemma unat_21846: "unat (21846 :: 16 word) = 21846"
  by (simp add: unsigned_numeral take_bit_numeral_numeral)

text \<open>
  C3, at \<open>led_count = 21846\<close>. The bound \<open>led_count * 3 = 65538\<close> is an \<open>int\<close> beyond the
  range of the \<open>uint16_t\<close> counter \<open>i\<close>: the comparison \<open>i < led_count * 3\<close> never fails,
  the loop over the bytes does not end and \<open>ws2812b_send\<close> does not return, whatever the
  buffer and the state. (For \<open>led_count * 3 < 65536\<close> the log is the one of
  \<open>ws2812b_send_returns\<close>, with \<open>24 * led_count\<close> pulses by \<open>pulses_in_transmission\<close>.)
\<close>

theorem ws2812b_send_never_returns: "ws2812b_send led_buffer 21846 st = None"
proof -
  have "65536 \<le> unat (21846 :: 16 word) * 3"
    unfolding unat_21846 by simp
  then show ?thesis by (rule ws2812b_send_diverges)
qed


text \<open>
  C9. Whenever \<open>ws2812b_send\<close> returns, PRIMASK is what it was at entry: the state differs
  from the one at entry by the log alone, which is \<open>__disable_irq()\<close>, the transmission
  with no interrupt event in it, and then \<open>__enable_irq()\<close> exactly when interrupts were
  enabled at entry. It returns whenever \<open>led_count * 3\<close> fits the 16-bit counter.
\<close>

theorem ws2812b_send_restores_irq:
  "(case ws2812b_send led_buffer led_count st of
      None \<Rightarrow> 65536 \<le> unat led_count * 3
    | Some st' \<Rightarrow>
        primask st' = primask st
        \<and> st' = st\<lparr>hal_log := hal_log st @ [Irq_disable]
                      @ transmission (SystemCoreClock st) led_buffer led_count
                      @ (if primask st then [] else [Irq_enable])\<rparr>
        \<and> Irq_disable \<notin> set (transmission (SystemCoreClock st) led_buffer led_count)
        \<and> Irq_enable \<notin> set (transmission (SystemCoreClock st) led_buffer led_count))"
proof (cases "unat led_count * 3 < 65536")
  case True
  show ?thesis
    unfolding ws2812b_send_returns [OF True] option.case
    by (simp only: no_irq_in_transmission, simp)
next
  case False
  then have "65536 \<le> unat led_count * 3" by simp
  then show ?thesis
    unfolding ws2812b_send_diverges [OF \<open>65536 \<le> unat led_count * 3\<close>] option.case .
qed


theorem ws2812b_send_restores_irq_witness:
  "ws2812b_send (\<lambda>k. 0xA5) 1 ws_reset =
     Some (ws_reset\<lparr>hal_log := [Irq_disable] @ byte_pulses 168000000 0xA5
             @ byte_pulses 168000000 0xA5 @ byte_pulses 168000000 0xA5
             @ [GPIO_Write False, Delay_ms 1, Irq_enable]\<rparr>)"
proof -
  note t = ws2812b_send_restores_irq [where led_buffer = "\<lambda>k. 0xA5" and led_count = 1
      and st = ws_reset]
  have n: "\<not> 65536 \<le> unat (1 :: 16 word) * 3"
    by simp
  have u: "[0 ..< unat (1 :: 16 word) * 3] = [0, 1, 2]"
    by (simp add: eval_nat_numeral)
  have w: "hal_log ws_reset = []" "primask ws_reset = False"
    "SystemCoreClock ws_reset = 168000000"
    by (simp_all add: ws_reset_def)
  show ?thesis
  proof (cases "ws2812b_send (\<lambda>k. 0xA5) 1 ws_reset")
    case None
    then show ?thesis using t n by simp
  next
    case (Some st')
    then have "st' = ws_reset\<lparr>hal_log := hal_log ws_reset @ [Irq_disable]
                      @ transmission (SystemCoreClock ws_reset) (\<lambda>k. 0xA5) 1
                      @ (if primask ws_reset then [] else [Irq_enable])\<rparr>"
      using t by simp
    then show ?thesis
      unfolding Some transmission_def u w by simp
  qed
qed


lemma unat_T:
  "unat T0H = 350" "unat T1H = 700" "unat T0L = 800" "unat T1L = 600"
  by (simp_all add: T0H_def T1H_def T0L_def T1L_def unsigned_numeral take_bit_numeral_numeral)

lemma busy_ns_bit_pulse:
  "busy_ns (bit_pulse clk False) = unat T0H + unat T0L"
  "busy_ns (bit_pulse clk True) = unat T1H + unat T1L"
  by (simp_all add: bit_pulse_def)

lemma emitted_log [simp]: "emitted st (st\<lparr>hal_log := hal_log st @ es\<rparr>) = es"
  by (simp add: emitted_def)

text \<open>
  C4, as amended. Each bit of a byte is sent as \<open>bit_pulse\<close> of its value, and the
  nanoseconds asked of the two busy-waits of a pulse add up to \<open>T0H + T0L = 1150\<close> for a
  0 bit and to \<open>T1H + T1L = 1300\<close> for a 1 bit.
\<close>

theorem bit_period_by_value:
  "ws2812b_bits b 8 st = st\<lparr>hal_log := hal_log st @
       concat (map (\<lambda>k. bit_pulse (SystemCoreClock st) (bit b k)) [7, 6, 5, 4, 3, 2, 1, 0])\<rparr>
   \<and> busy_ns (bit_pulse clk False) = unat T0H + unat T0L
   \<and> busy_ns (bit_pulse clk True) = unat T1H + unat T1L
   \<and> unat T0H + unat T0L = 1150 \<and> unat T1H + unat T1L = 1300"
  using ws2812b_byte_log [of b st]
  by (simp only: byte_pulses_def busy_ns_bit_pulse unat_T) simp

text \<open>
  C4, as stated, fails: \<open>T0H + T0L\<close> is not \<open>T1H + T1L\<close>, and sending one 0 bit asks for
  1150 ns of busy-wait, one 1 bit for 1300 ns.
\<close>

theorem bit_period_differs_counterexample:
  "unat T0H + unat T0L \<noteq> unat T1H + unat T1L
   \<and> busy_ns (emitted ws_reset (ws2812b_bits 0x00 1 ws_reset)) = 1150
   \<and> busy_ns (emitted ws_reset (ws2812b_bits 0x01 1 ws_reset)) = 1300"
proof -
  have r: "rev [0 ..< 1] = [0 :: nat]" by simp
  show ?thesis
    unfolding ws2812b_bits_log r unat_T
    by (simp add: busy_ns_bit_pulse unat_T)
qed

text \<open>
  At the 168 MHz the source assumes, the products of \<open>NS_TO_CYCLES\<close> wrap: the loop of
  \<open>ws2812b_delay\<close> runs once for \<open>T0H\<close> and \<open>T1L\<close> and not at all for \<open>T1H\<close> and \<open>T0L\<close>.
\<close>

lemma delay_cycles_168MHz:
  "NS_TO_CYCLES 168000000 T0H div 2 = 1" "NS_TO_CYCLES 168000000 T1H div 2 = 0"
  "NS_TO_CYCLES 168000000 T0L div 2 = 0" "NS_TO_CYCLES 168000000 T1L div 2 = 1"
  by (simp_all add: NS_TO_CYCLES_def T0H_def T1H_def T0L_def T1L_def word_div_def
      unsigned_numeral take_bit_numeral_numeral)


lemma pulses_in_byte:
  "length (filter (\<lambda>e. e = GPIO_Write True) (byte_pulses clk b)) = 8"
  by (simp add: byte_pulses_def bit_pulse_def)

lemma pulses_in_bytes:
  "length (filter (\<lambda>e. e = GPIO_Write True)
     (concat (map (\<lambda>j. byte_pulses clk (led_buffer j)) [0 ..< n]))) = 8 * n"
  by (induction n) (simp_all add: pulses_in_byte)

lemma pulses_in_transmission:
  "length (filter (\<lambda>e. e = GPIO_Write True) (transmission clk led_buffer led_count)) =
     24 * unat led_count"
  by (simp add: transmission_def pulses_in_bytes)

end
